theory Spec2Isabelle
  imports Main
begin

section \<open>Python strings\<close>

text \<open>
  The texts of \<^verbatim>\<open>app.py\<close> (the code input, the completions, labels) are Python
  \<^verbatim>\<open>str\<close> values. They are modelled as \<^typ>\<open>string\<close>, read as the UTF-8 bytes of
  the text. All keywords and delimiters the script looks for are ASCII, so searching and
  slicing between two found characters agree with Python on the represented text.
\<close>

definition lower_char :: "char \<Rightarrow> char" where
  "lower_char c =
     (case map_of (zip ''ABCDEFGHIJKLMNOPQRSTUVWXYZ'' ''abcdefghijklmnopqrstuvwxyz'') c of
        Some l \<Rightarrow> l
      | None \<Rightarrow> c)"

fun starts_with :: "string \<Rightarrow> string \<Rightarrow> bool" where
  "starts_with [] s = True"
| "starts_with (k # ks) [] = False"
| "starts_with (k # ks) (c # cs) = (k = c \<and> starts_with ks cs)"

lemma starts_with_length: "starts_with k s \<Longrightarrow> length k \<le> length s"
  by (induction k s rule: starts_with.induct) auto

text \<open>
  \<^verbatim>\<open>s.lower()\<close>. The ASCII capitals are mapped to their small letters. Outside ASCII,
  two characters have a lower-case form that contains an ASCII character: the Kelvin sign
  U+212A (bytes E2 84 AA) becomes \<^verbatim>\<open>k\<close>, and the capital I with dot above U+0130
  (bytes C4 B0) becomes \<^verbatim>\<open>i\<close> followed by the combining dot U+0307 (bytes CC 87).
  Every other character outside ASCII has a lower-case form outside ASCII and is left as
  it is here: the script only tests the result for ASCII keywords, and such a test sees
  the ASCII characters of the result and which of them are adjacent, nothing else.
\<close>

function lower :: "string \<Rightarrow> string" where
  "lower [] = []"
| "lower (c # cs) =
     (if starts_with [CHR 0xE2, CHR 0x84, CHR 0xAA] (c # cs)
      then CHR ''k'' # lower (drop 2 cs)
      else if starts_with [CHR 0xC4, CHR 0xB0] (c # cs)
      then CHR ''i'' # CHR 0xCC # CHR 0x87 # lower (drop 1 cs)
      else lower_char c # lower cs)"
  by pat_completeness auto
termination
  by (relation "measure length") auto

declare lower.simps(2) [simp del]

text \<open>\<^verbatim>\<open>kw in s\<close> for two strings: \<^verbatim>\<open>kw\<close> occurs in \<^verbatim>\<open>s\<close> as a contiguous substring.\<close>

fun str_in :: "string \<Rightarrow> string \<Rightarrow> bool" where
  "str_in kw [] = (kw = [])"
| "str_in kw (c # cs) = (starts_with kw (c # cs) \<or> str_in kw cs)"

text \<open>\<^verbatim>\<open>s.find(c)\<close>: the index of the first occurrence of the character, or -1.\<close>

fun str_find :: "string \<Rightarrow> char \<Rightarrow> int" where
  "str_find [] c = - 1"
| "str_find (x # xs) c =
     (if x = c then 0
      else (let r = str_find xs c in if r = - 1 then - 1 else r + 1))"

text \<open>\<^verbatim>\<open>s.rfind(c)\<close>: the index of the last occurrence of the character, or -1.\<close>

fun str_rfind :: "string \<Rightarrow> char \<Rightarrow> int" where
  "str_rfind [] c = - 1"
| "str_rfind (x # xs) c =
     (let r = str_rfind xs c in
      if r \<noteq> - 1 then r + 1 else if x = c then 0 else - 1)"

text \<open>
  \<^verbatim>\<open>s[i:j]\<close>: a negative index counts from the end, and both indices are clamped to
  the string.
\<close>

definition slice_index :: "nat \<Rightarrow> int \<Rightarrow> nat" where
  "slice_index n i = (if i < 0 then nat (max 0 (i + int n)) else min (nat i) n)"

definition py_slice :: "string \<Rightarrow> int \<Rightarrow> int \<Rightarrow> string" where
  "py_slice s i j =
     (let a = slice_index (length s) i; b = slice_index (length s) j
      in take (b - a) (drop a s))"

text \<open>
  The characters for which \<^verbatim>\<open>str.isspace\<close> holds, each as its UTF-8 bytes: tab, line
  feed, vertical tab, form feed, carriage return, the four separators U+001C to U+001F,
  the space, and outside ASCII U+0085, U+00A0, U+1680, U+2000 to U+200A, U+2028, U+2029,
  U+202F, U+205F and U+3000.
\<close>

definition whitespace :: "string list" where
  "whitespace =
     [[CHR 0x09], [CHR 0x0A], [CHR 0x0B], [CHR 0x0C], [CHR 0x0D],
      [CHR 0x1C], [CHR 0x1D], [CHR 0x1E], [CHR 0x1F], [CHR 0x20],
      [CHR 0xC2, CHR 0x85], [CHR 0xC2, CHR 0xA0], [CHR 0xE1, CHR 0x9A, CHR 0x80],
      [CHR 0xE2, CHR 0x80, CHR 0x80], [CHR 0xE2, CHR 0x80, CHR 0x81],
      [CHR 0xE2, CHR 0x80, CHR 0x82], [CHR 0xE2, CHR 0x80, CHR 0x83],
      [CHR 0xE2, CHR 0x80, CHR 0x84], [CHR 0xE2, CHR 0x80, CHR 0x85],
      [CHR 0xE2, CHR 0x80, CHR 0x86], [CHR 0xE2, CHR 0x80, CHR 0x87],
      [CHR 0xE2, CHR 0x80, CHR 0x88], [CHR 0xE2, CHR 0x80, CHR 0x89],
      [CHR 0xE2, CHR 0x80, CHR 0x8A], [CHR 0xE2, CHR 0x80, CHR 0xA8],
      [CHR 0xE2, CHR 0x80, CHR 0xA9], [CHR 0xE2, CHR 0x80, CHR 0xAF],
      [CHR 0xE2, CHR 0x81, CHR 0x9F], [CHR 0xE3, CHR 0x80, CHR 0x80]]"

text \<open>The first of the given characters that the text starts with, if any.\<close>

definition space_at_start :: "string list \<Rightarrow> string \<Rightarrow> string option" where
  "space_at_start ws s = List.find (\<lambda>w. w \<noteq> [] \<and> starts_with w s) ws"

lemma space_at_start_drop:
  assumes "space_at_start ws s = Some w"
  shows "length (drop (length w) s) < length s"
proof -
  from assms have "w \<noteq> []" and "starts_with w s"
    by (auto simp: space_at_start_def find_Some_iff)
  then show ?thesis using starts_with_length [of w s] by (cases w) auto
qed

text \<open>Removing the given characters from the start of a text, as long as there is one.\<close>

function lstrip :: "string list \<Rightarrow> string \<Rightarrow> string" where
  "lstrip ws s =
     (case space_at_start ws s of
        None \<Rightarrow> s
      | Some w \<Rightarrow> lstrip ws (drop (length w) s))"
  by pat_completeness auto
termination
  by (relation "measure (\<lambda>(ws, s). length s)") (auto dest: space_at_start_drop)

declare lstrip.simps [simp del]

text \<open>
  \<^verbatim>\<open>s.strip()\<close> removes leading and trailing whitespace. At the end of the text the
  characters are read backwards.
\<close>

definition strip :: "string \<Rightarrow> string" where
  "strip s = rev (lstrip (map rev whitespace) (rev (lstrip whitespace s)))"

section \<open>Node and edge styling\<close>

text \<open>The colours of the script, under the names its comments give them.\<close>

definition green :: string where "green = ''#32CD32''"
definition yellow :: string where "yellow = ''#FFD700''"
definition purple :: string where "purple = ''#8A2BE2''"
definition red :: string where "red = ''#FF6347''"
definition light_blue :: string where "light_blue = ''#ADD8E6''"
definition default_blue :: string where "default_blue = ''#1E90FF''"
definition loop_blue :: string where "loop_blue = ''#0000FF''"
definition gray :: string where "gray = ''#666666''"

record node_attrs =
  shape :: string
  style :: string
  fillcolor :: string
  fontcolor :: string

text \<open>
  The default assignments and the \<^verbatim>\<open>if\<close>/\<^verbatim>\<open>elif\<close> chain of the node loop
  (lines 240 to 263): each branch overwrites some of the four variables.
\<close>

definition node_style :: "string \<Rightarrow> node_attrs" where
  "node_style node_label =
     (let d = \<lparr>shape = ''box'', style = ''filled'', fillcolor = ''#1E90FF'',
                fontcolor = ''white''\<rparr>;
          l = lower node_label
      in if str_in ''start'' l
         then d\<lparr>fillcolor := ''#32CD32'', shape := ''oval''\<rparr>
         else if str_in ''check'' l \<or> str_in ''if'' l \<or> str_in ''loop'' l
                 \<or> str_in ''condition'' l
         then d\<lparr>fillcolor := ''#FFD700'', shape := ''diamond'', fontcolor := ''black''\<rparr>
         else if str_in ''return'' l \<or> str_in ''end'' l
         then d\<lparr>fillcolor := ''#8A2BE2'', shape := ''oval''\<rparr>
         else if str_in ''call'' l \<or> str_in ''function'' l
         then d\<lparr>fillcolor := ''#FF6347'', shape := ''box''\<rparr>
         else if str_in ''initialize'' l \<or> str_in ''variable'' l \<or> str_in ''assign'' l
         then d\<lparr>fillcolor := ''#ADD8E6'', fontcolor := ''black'', shape := ''box''\<rparr>
         else d)"

text \<open>
  The colour chain of the edge loop (lines 281 to 289), on \<^verbatim>\<open>label_text\<close> when it is
  a string.
\<close>

definition edge_color :: "string \<Rightarrow> string" where
  "edge_color label_text =
     (let l = lower label_text
      in if l = ''yes'' \<or> str_in ''true'' l then ''#32CD32''
         else if l = ''no'' \<or> str_in ''false'' l then ''#FF6347''
         else if str_in ''iteration'' l \<or> str_in ''loop'' l then ''#0000FF''
         else ''#666666'')"

subsection \<open>The style rules as the specification tabulates them\<close>

text \<open>
  A style rule pairs a test on the lower-cased label with a result; a rule list is
  evaluated in order, the first rule whose test holds gives the result, and the default
  is the result when none holds.
\<close>

fun first_match :: "((string \<Rightarrow> bool) \<times> 'a) list \<Rightarrow> 'a \<Rightarrow> string \<Rightarrow> 'a" where
  "first_match [] d l = d"
| "first_match ((p, r) # rs) d l = (if p l then r else first_match rs d l)"

definition contains_any :: "string list \<Rightarrow> string \<Rightarrow> bool" where
  "contains_any kws l = list_ex (\<lambda>kw. str_in kw l) kws"

definition node_rules :: "((string \<Rightarrow> bool) \<times> (string \<times> string \<times> string)) list" where
  "node_rules =
     [(contains_any [''start''], (''oval'', green, ''white'')),
      (contains_any [''check'', ''if'', ''loop'', ''condition''], (''diamond'', yellow, ''black'')),
      (contains_any [''return'', ''end''], (''oval'', purple, ''white'')),
      (contains_any [''call'', ''function''], (''box'', red, ''white'')),
      (contains_any [''initialize'', ''variable'', ''assign''], (''box'', light_blue, ''black''))]"

definition spec_node_style :: "string \<Rightarrow> string \<times> string \<times> string" where
  "spec_node_style label = first_match node_rules (''box'', default_blue, ''white'') (lower label)"

definition edge_rules :: "((string \<Rightarrow> bool) \<times> string) list" where
  "edge_rules =
     [(\<lambda>l. l = ''yes'' \<or> str_in ''true'' l, green),
      (\<lambda>l. l = ''no'' \<or> str_in ''false'' l, red),
      (\<lambda>l. contains_any [''iteration'', ''loop''] l, loop_blue)]"

definition spec_edge_color :: "string option \<Rightarrow> string" where
  "spec_edge_color label =
     (case label of
        None \<Rightarrow> gray
      | Some l \<Rightarrow> if l = [] then gray else first_match edge_rules gray (lower l))"

text \<open>\<^verbatim>\<open>edge.get("label", "")\<close> when the label is unset or a string.\<close>

definition label_text_of :: "string option \<Rightarrow> string" where
  "label_text_of label = (case label of None \<Rightarrow> [] | Some l \<Rightarrow> l)"

section \<open>The JSON candidate\<close>

text \<open>Lines 207 to 214: the text handed to \<^verbatim>\<open>json.loads\<close>.\<close>

definition json_string :: "string \<Rightarrow> string" where
  "json_string flowchart_output =
     (let json_start = str_find flowchart_output CHR ''{'';
          json_end = str_rfind flowchart_output CHR ''}''
      in if json_start \<noteq> - 1 \<and> json_end \<noteq> - 1 \<and> json_end > json_start
         then py_slice flowchart_output json_start (json_end + 1)
         else flowchart_output)"

text \<open>
  The candidate in the specification's words: the substring from the first opening brace
  to the last closing brace, both included, whenever both characters occur.
\<close>

definition spec_candidate :: "string \<Rightarrow> string" where
  "spec_candidate raw =
     (if CHR ''{'' \<in> set raw \<and> CHR ''}'' \<in> set raw
      then py_slice raw (str_find raw CHR ''{'') (str_rfind raw CHR ''}'' + 1)
      else raw)"

section \<open>JSON values and the decoder\<close>

text \<open>
  The values \<^verbatim>\<open>json.loads\<close> returns: \<^verbatim>\<open>None\<close>, booleans, integers, floats, strings,
  lists and dictionaries with string keys. A float is kept as the text of its literal
  (its binary value plays no role in the script). A dictionary is the list of its items
  in insertion order, with pairwise distinct keys.
\<close>

datatype json =
    JNull
  | JBool bool
  | JInt int
  | JFloat string
  | JStr string
  | JArr "json list"
  | JObj "(string \<times> json) list"

text \<open>
  \<^verbatim>\<open>json.loads\<close> is the decoder of the Python standard library, in its default
  (strict) mode. It is modelled after the grammar it accepts: whitespace is space, tab,
  line feed and carriage return; a document is one value between optional whitespace,
  and anything after it is an error. The functions of this section are the grammar
  alone: \<open>None\<close> says that the text is not a JSON document. What the call
  \<^verbatim>\<open>json.loads(json_string)\<close> of line 217 does, with the exceptions it raises and the
  limits of the interpreter (recursion depth, the digit limit of integers), is \<open>loads\<close>
  in the section on the script; \<open>loads_agrees\<close> relates the two.
\<close>

definition is_ws :: "char \<Rightarrow> bool" where
  "is_ws c = (c = CHR '' '' \<or> c = CHR 0x09 \<or> c = CHR 0x0A \<or> c = CHR 0x0D)"

definition skip_ws :: "string \<Rightarrow> string" where
  "skip_ws s = dropWhile is_ws s"

lemma skip_ws_length: "length (skip_ws s) \<le> length s"
  by (simp add: skip_ws_def length_dropWhile_le)

lemma skip_ws_Cons: "skip_ws s = d # ds \<Longrightarrow> length ds < length s"
  using skip_ws_length [of s] by simp

subsection \<open>Strings\<close>

definition hex_val :: "char \<Rightarrow> nat option" where
  "hex_val c =
     map_of (zip ''0123456789abcdefABCDEF''
               [0, 1, 2, 3, 4, 5, 6, 7, 8, 9, 10, 11, 12, 13, 14, 15, 10, 11, 12, 13, 14, 15]) c"

definition decode_uXXXX :: "string \<Rightarrow> nat option" where
  "decode_uXXXX s =
     (case s of
        a # b # c # d # _ \<Rightarrow>
          (case (hex_val a, hex_val b, hex_val c, hex_val d) of
             (Some x, Some y, Some z, Some w) \<Rightarrow> Some (((x * 16 + y) * 16 + z) * 16 + w)
           | _ \<Rightarrow> None)
      | _ \<Rightarrow> None)"

text \<open>The UTF-8 bytes of a code point, the representation of a decoded escape.\<close>

definition utf8 :: "nat \<Rightarrow> string" where
  "utf8 n =
     (if n < 0x80 then [char_of n]
      else if n < 0x800 then [char_of (0xC0 + n div 64), char_of (0x80 + n mod 64)]
      else if n < 0x10000 then
        [char_of (0xE0 + n div 4096), char_of (0x80 + n div 64 mod 64), char_of (0x80 + n mod 64)]
      else
        [char_of (0xF0 + n div 262144), char_of (0x80 + n div 4096 mod 64),
         char_of (0x80 + n div 64 mod 64), char_of (0x80 + n mod 64)])"

text \<open>
  The text after a backslash and \<^verbatim>\<open>u\<close>: four hexadecimal digits, and a second escape
  when the first is a high surrogate and a low surrogate follows. The result is the
  decoded character and the number of characters read.
\<close>

definition unicode_escape :: "string \<Rightarrow> (string \<times> nat) option" where
  "unicode_escape s =
     (case decode_uXXXX s of
        None \<Rightarrow> None
      | Some uni \<Rightarrow>
          if 0xD800 \<le> uni \<and> uni \<le> 0xDBFF \<and> take 2 (drop 4 s) = [CHR 0x5C, CHR ''u'']
          then (case decode_uXXXX (drop 6 s) of
                  None \<Rightarrow> None
                | Some uni2 \<Rightarrow>
                    if 0xDC00 \<le> uni2 \<and> uni2 \<le> 0xDFFF
                    then Some (utf8 (0x10000 + (uni - 0xD800) * 1024 + (uni2 - 0xDC00)), 10)
                    else Some (utf8 uni, 4))
          else Some (utf8 uni, 4))"

definition unescape :: "char \<Rightarrow> char option" where
  "unescape e =
     map_of [(CHR 0x22, CHR 0x22), (CHR 0x5C, CHR 0x5C), (CHR ''/'', CHR ''/''),
             (CHR ''b'', CHR 0x08), (CHR ''f'', CHR 0x0C), (CHR ''n'', CHR 0x0A),
             (CHR ''r'', CHR 0x0D), (CHR ''t'', CHR 0x09)] e"

text \<open>
  The text after an opening quote, up to the closing quote: the decoded string and the
  rest of the input. A control character below 0x20 is not allowed unescaped.
\<close>

fun scanstring :: "string \<Rightarrow> (string \<times> string) option" where
  "scanstring [] = None"
| "scanstring (c # cs) =
     (if c = CHR 0x22 then Some ([], cs)
      else if c = CHR 0x5C then
        (case cs of
           [] \<Rightarrow> None
         | e # rest \<Rightarrow>
             if e = CHR ''u'' then
               (case unicode_escape rest of
                  None \<Rightarrow> None
                | Some (bytes, n) \<Rightarrow>
                    (case scanstring (drop n rest) of
                       None \<Rightarrow> None
                     | Some (t, r) \<Rightarrow> Some (bytes @ t, r)))
             else
               (case unescape e of
                  None \<Rightarrow> None
                | Some x \<Rightarrow>
                    (case scanstring rest of
                       None \<Rightarrow> None
                     | Some (t, r) \<Rightarrow> Some (x # t, r))))
      else if (of_char c :: nat) < 0x20 then None
      else (case scanstring cs of
              None \<Rightarrow> None
            | Some (t, r) \<Rightarrow> Some (c # t, r)))"

lemma scanstring_length: "scanstring s = Some (t, r) \<Longrightarrow> length r < length s"
proof (induction s arbitrary: t r rule: scanstring.induct)
  case 1
  then show ?case by simp
next
  case (2 c cs)
  then show ?case
    by (fastforce split: if_splits list.splits option.splits prod.splits)
qed

subsection \<open>Numbers and literals\<close>

definition is_digit :: "char \<Rightarrow> bool" where
  "is_digit c = (c \<in> set ''0123456789'')"

definition digit_val :: "char \<Rightarrow> nat" where
  "digit_val c = (case map_of (zip ''0123456789'' [0, 1, 2, 3, 4, 5, 6, 7, 8, 9]) c of
                    Some d \<Rightarrow> d | None \<Rightarrow> 0)"

definition nat_of_digits :: "string \<Rightarrow> nat" where
  "nat_of_digits ds = foldl (\<lambda>n c. 10 * n + digit_val c) 0 ds"

text \<open>The integer part: a zero, or a nonzero digit followed by digits.\<close>

definition scan_int_part :: "string \<Rightarrow> (string \<times> string) option" where
  "scan_int_part s =
     (case s of
        [] \<Rightarrow> None
      | c # cs \<Rightarrow>
          if c = CHR ''0'' then Some ([c], cs)
          else if is_digit c then Some (takeWhile is_digit s, dropWhile is_digit s)
          else None)"

definition scan_frac :: "string \<Rightarrow> string \<times> string" where
  "scan_frac s =
     (case s of
        c # d # ds \<Rightarrow>
          if c = CHR ''.'' \<and> is_digit d
          then (c # takeWhile is_digit (d # ds), dropWhile is_digit (d # ds))
          else ([], s)
      | _ \<Rightarrow> ([], s))"

definition scan_exp :: "string \<Rightarrow> string \<times> string" where
  "scan_exp s =
     (case s of
        [] \<Rightarrow> ([], s)
      | e # cs \<Rightarrow>
          if e = CHR ''e'' \<or> e = CHR ''E'' then
            (case cs of
               [] \<Rightarrow> ([], s)
             | g # ds \<Rightarrow>
                 if g = CHR ''+'' \<or> g = CHR ''-'' then
                   (if ds \<noteq> [] \<and> is_digit (hd ds)
                    then (e # g # takeWhile is_digit ds, dropWhile is_digit ds)
                    else ([], s))
                 else if is_digit g
                 then (e # takeWhile is_digit cs, dropWhile is_digit cs)
                 else ([], s))
          else ([], s))"

text \<open>
  A number is an optional minus sign, the integer part, an optional fraction and an
  optional exponent; it is an integer when it has neither fraction nor exponent.
  \<open>number_tail\<close> reads what follows the sign.
\<close>

definition number_tail :: "string \<Rightarrow> string \<Rightarrow> (json \<times> string) option" where
  "number_tail sign s1 =
     (case scan_int_part s1 of
        None \<Rightarrow> None
      | Some (integer, s2) \<Rightarrow>
          (let (frac, s3) = scan_frac s2; (exp, s4) = scan_exp s3
           in if frac = [] \<and> exp = []
              then Some (JInt (if sign = [] then int (nat_of_digits integer)
                               else - int (nat_of_digits integer)), s4)
              else Some (JFloat (sign @ integer @ frac @ exp), s4)))"

definition match_number :: "string \<Rightarrow> (json \<times> string) option" where
  "match_number s =
     (case s of
        [] \<Rightarrow> number_tail [] s
      | c # cs \<Rightarrow> if c = CHR ''-'' then number_tail [c] cs else number_tail [] s)"

text \<open>The values that are neither strings, objects nor arrays, in the scanner's order.\<close>

definition scan_literal :: "string \<Rightarrow> (json \<times> string) option" where
  "scan_literal s =
     (if starts_with ''null'' s then Some (JNull, drop 4 s)
      else if starts_with ''true'' s then Some (JBool True, drop 4 s)
      else if starts_with ''false'' s then Some (JBool False, drop 5 s)
      else (case match_number s of
              Some r \<Rightarrow> Some r
            | None \<Rightarrow>
                if starts_with ''NaN'' s then Some (JFloat ''NaN'', drop 3 s)
                else if starts_with ''Infinity'' s then Some (JFloat ''Infinity'', drop 8 s)
                else if starts_with ''-Infinity'' s then Some (JFloat ''-Infinity'', drop 9 s)
                else None))"

subsection \<open>Values\<close>

text \<open>
  \<^verbatim>\<open>dict(pairs)\<close>: a repeated key keeps its first position and takes the last value.
\<close>

fun dict_set :: "(string \<times> json) list \<Rightarrow> string \<Rightarrow> json \<Rightarrow> (string \<times> json) list" where
  "dict_set [] k v = [(k, v)]"
| "dict_set ((k', v') # d) k v = (if k' = k then (k', v) # d else (k', v') # dict_set d k v)"

definition py_dict :: "(string \<times> json) list \<Rightarrow> (string \<times> json) list" where
  "py_dict pairs = foldl (\<lambda>d (k, v). dict_set d k v) [] pairs"

text \<open>
  The decoder proper. \<open>parse_elements\<close> reads the elements of a non-empty array up to
  its closing bracket, \<open>parse_members\<close> the members of a non-empty object, after the
  opening quote of the first key, up to its closing brace. The two tests on the length of
  the remaining input make the recursion evidently terminating; they never fail, as
  \<open>parse_value_length\<close> below shows, so they do not change what is accepted.
\<close>

function parse_value :: "string \<Rightarrow> (json \<times> string) option"
  and parse_elements :: "string \<Rightarrow> (json list \<times> string) option"
  and parse_members :: "string \<Rightarrow> ((string \<times> json) list \<times> string) option"
where
  "parse_value s =
     (case s of
        [] \<Rightarrow> None
      | c # cs \<Rightarrow>
          if c = CHR 0x22 then
            (case scanstring cs of
               None \<Rightarrow> None
             | Some (t, r) \<Rightarrow> Some (JStr t, r))
          else if c = CHR ''{'' then
            (case skip_ws cs of
               [] \<Rightarrow> None
             | d # ds \<Rightarrow>
                 if d = CHR ''}'' then Some (JObj [], ds)
                 else if d = CHR 0x22 then
                   (case parse_members ds of
                      None \<Rightarrow> None
                    | Some (pairs, r) \<Rightarrow> Some (JObj (py_dict pairs), r))
                 else None)
          else if c = CHR ''['' then
            (case skip_ws cs of
               [] \<Rightarrow> None
             | d # ds \<Rightarrow>
                 if d = CHR '']'' then Some (JArr [], ds)
                 else
                   (case parse_elements (d # ds) of
                      None \<Rightarrow> None
                    | Some (vs, r) \<Rightarrow> Some (JArr vs, r)))
          else scan_literal s)"
| "parse_elements s =
     (case parse_value s of
        None \<Rightarrow> None
      | Some (v, r) \<Rightarrow>
          if length r < length s then
            (case skip_ws r of
               [] \<Rightarrow> None
             | d # ds \<Rightarrow>
                 if d = CHR '']'' then Some ([v], ds)
                 else if d = CHR '','' then
                   (case parse_elements (skip_ws ds) of
                      None \<Rightarrow> None
                    | Some (vs, r') \<Rightarrow> Some (v # vs, r'))
                 else None)
          else None)"
| "parse_members s =
     (case scanstring s of
        None \<Rightarrow> None
      | Some (key, r) \<Rightarrow>
          (case skip_ws r of
             [] \<Rightarrow> None
           | c # cs \<Rightarrow>
               if c = CHR '':'' then
                 (case parse_value (skip_ws cs) of
                    None \<Rightarrow> None
                  | Some (v, r1) \<Rightarrow>
                      if length r1 < length s then
                        (case skip_ws r1 of
                           [] \<Rightarrow> None
                         | d # ds \<Rightarrow>
                             if d = CHR ''}'' then Some ([(key, v)], ds)
                             else if d = CHR '','' then
                               (case skip_ws ds of
                                  [] \<Rightarrow> None
                                | e # es \<Rightarrow>
                                    if e = CHR 0x22 then
                                      (case parse_members es of
                                         None \<Rightarrow> None
                                       | Some (pairs, r') \<Rightarrow> Some ((key, v) # pairs, r'))
                                    else None)
                             else None)
                      else None)
               else None))"
  by pat_completeness auto
termination
proof (relation "measure (\<lambda>x. case x of
          Inl s \<Rightarrow> 2 * length s
        | Inr (Inl s) \<Rightarrow> 2 * length s + 1
        | Inr (Inr s) \<Rightarrow> 2 * length s + 1)", goal_cases)
  case 1
  show ?case by simp
next
  case (2 s c cs d ds)
  then show ?case by (auto dest: skip_ws_Cons)
next
  case (3 s c cs d ds)
  then show ?case using skip_ws_length [of cs] by auto
next
  case (4 s)
  show ?case by simp
next
  case (5 s x2 v r d ds)
  then show ?case using skip_ws_length [of ds] by (auto dest!: skip_ws_Cons)
next
  case (6 s x2 key r c cs)
  then show ?case using skip_ws_length [of cs] by (auto dest!: skip_ws_Cons scanstring_length)
next
  case (7 s x2 key r c cs x2a v r1 d ds e es)
  then show ?case by (auto dest!: skip_ws_Cons)
qed

declare parse_value.simps [simp del] parse_elements.simps [simp del] parse_members.simps [simp del]

definition json_loads :: "string \<Rightarrow> json option" where
  "json_loads s =
     (case parse_value (skip_ws s) of
        None \<Rightarrow> None
      | Some (v, r) \<Rightarrow> if skip_ws r = [] then Some v else None)"

subsection \<open>The encoder\<close>

text \<open>
  The encoder \<^verbatim>\<open>json.dumps\<close>, without the escaping of characters outside ASCII: quotes,
  backslashes and control characters are escaped, every other character is written as it
  is.
\<close>

definition hex_digit :: "nat \<Rightarrow> char" where
  "hex_digit n = ''0123456789abcdef'' ! n"

definition escape_char :: "char \<Rightarrow> string" where
  "escape_char c =
     (if c = CHR 0x22 then [CHR 0x5C, CHR 0x22]
      else if c = CHR 0x5C then [CHR 0x5C, CHR 0x5C]
      else if c = CHR 0x0A then [CHR 0x5C, CHR ''n'']
      else if c = CHR 0x0D then [CHR 0x5C, CHR ''r'']
      else if c = CHR 0x09 then [CHR 0x5C, CHR ''t'']
      else if c = CHR 0x08 then [CHR 0x5C, CHR ''b'']
      else if c = CHR 0x0C then [CHR 0x5C, CHR ''f'']
      else if (of_char c :: nat) < 0x20
      then [CHR 0x5C, CHR ''u'', CHR ''0'', CHR ''0'',
            hex_digit (of_char c div 16), hex_digit (of_char c mod 16)]
      else [c])"

definition encode_string :: "string \<Rightarrow> string" where
  "encode_string t = CHR 0x22 # concat (map escape_char t) @ [CHR 0x22]"

function digits_of_nat :: "nat \<Rightarrow> string" where
  "digits_of_nat n =
     (if n < 10 then [''0123456789'' ! n]
      else digits_of_nat (n div 10) @ [''0123456789'' ! (n mod 10)])"
  by pat_completeness auto
termination
  by (relation "measure id") auto

declare digits_of_nat.simps [simp del]

definition dumps_int :: "int \<Rightarrow> string" where
  "dumps_int i = (if i < 0 then CHR ''-'' # digits_of_nat (nat (- i)) else digits_of_nat (nat i))"

text \<open>
  The encoder proper, with the two separators of \<^verbatim>\<open>json.dumps\<close> as parameters: the
  text between two items and the text between a key and its value.
\<close>

fun encode :: "string \<Rightarrow> string \<Rightarrow> json \<Rightarrow> string"
  and encode_elements :: "string \<Rightarrow> string \<Rightarrow> json list \<Rightarrow> string"
  and encode_members :: "string \<Rightarrow> string \<Rightarrow> (string \<times> json) list \<Rightarrow> string"
where
  "encode isep ksep JNull = ''null''"
| "encode isep ksep (JBool b) = (if b then ''true'' else ''false'')"
| "encode isep ksep (JInt i) = dumps_int i"
| "encode isep ksep (JFloat lexeme) = lexeme"
| "encode isep ksep (JStr t) = encode_string t"
| "encode isep ksep (JArr vs) = ''['' @ encode_elements isep ksep vs @ '']''"
| "encode isep ksep (JObj kvs) = ''{'' @ encode_members isep ksep kvs @ ''}''"
| "encode_elements isep ksep [] = []"
| "encode_elements isep ksep [v] = encode isep ksep v"
| "encode_elements isep ksep (v # w # vs) =
     encode isep ksep v @ isep @ encode_elements isep ksep (w # vs)"
| "encode_members isep ksep [] = []"
| "encode_members isep ksep [(k, v)] = encode_string k @ ksep @ encode isep ksep v"
| "encode_members isep ksep ((k, v) # kv # kvs) =
     encode_string k @ ksep @ encode isep ksep v @ isep @ encode_members isep ksep (kv # kvs)"

text \<open>
  \<^verbatim>\<open>json.dumps(obj)\<close> has the separators \<^verbatim>\<open>", "\<close> and \<^verbatim>\<open>": "\<close>. The compact form, with
  \<^verbatim>\<open>","\<close> and \<^verbatim>\<open>":"\<close>, is the text that \<^verbatim>\<open>JSON.stringify\<close> produces.
\<close>

definition json_dumps :: "json \<Rightarrow> string" where
  "json_dumps obj = encode '', '' '': '' obj"

definition json_stringify :: "json \<Rightarrow> string" where
  "json_stringify obj = encode '','' '':'' obj"

text \<open>
  The values built from strings, booleans, \<^verbatim>\<open>null\<close>, lists and dictionaries with pairwise
  distinct keys: the values without numbers.
\<close>

fun plain :: "json \<Rightarrow> bool"
  and plain_elements :: "json list \<Rightarrow> bool"
  and plain_members :: "(string \<times> json) list \<Rightarrow> bool"
where
  "plain JNull = True"
| "plain (JBool b) = True"
| "plain (JInt i) = False"
| "plain (JFloat x) = False"
| "plain (JStr t) = True"
| "plain (JArr vs) = plain_elements vs"
| "plain (JObj kvs) = (distinct (map fst kvs) \<and> plain_members kvs)"
| "plain_elements [] = True"
| "plain_elements (v # vs) = (plain v \<and> plain_elements vs)"
| "plain_members [] = True"
| "plain_members ((k, v) # kvs) = (plain v \<and> plain_members kvs)"

text \<open>How deep the lists and dictionaries of a value are nested.\<close>

fun depth :: "json \<Rightarrow> nat"
  and depth_elements :: "json list \<Rightarrow> nat"
  and depth_members :: "(string \<times> json) list \<Rightarrow> nat"
where
  "depth JNull = 0"
| "depth (JBool b) = 0"
| "depth (JInt i) = 0"
| "depth (JFloat x) = 0"
| "depth (JStr t) = 0"
| "depth (JArr vs) = Suc (depth_elements vs)"
| "depth (JObj kvs) = Suc (depth_members kvs)"
| "depth_elements [] = 0"
| "depth_elements (v # vs) = max (depth v) (depth_elements vs)"
| "depth_members [] = 0"
| "depth_members ((k, v) # kvs) = max (depth v) (depth_members kvs)"

text \<open>The characters that start the text of such a value.\<close>

definition value_start :: "char \<Rightarrow> bool" where
  "value_start c = (c \<in> set [CHR 0x22, CHR ''['', CHR ''{'', CHR ''n'', CHR ''t'', CHR ''f''])"

section \<open>The flow graph of the specification\<close>

text \<open>
  The data model of the specification: a node has an id and a label, an edge has a
  source, a target and an optional label, and a graph is a sequence of nodes and a
  sequence of edges. \<open>graph_json\<close> is the JSON object that describes a graph.
\<close>

datatype flow_node = FlowNode string string

datatype flow_edge = FlowEdge string string "string option"

datatype flow_graph = FlowGraph "flow_node list" "flow_edge list"

fun node_json :: "flow_node \<Rightarrow> json" where
  "node_json (FlowNode i l) = JObj [(''id'', JStr i), (''label'', JStr l)]"

fun edge_json :: "flow_edge \<Rightarrow> json" where
  "edge_json (FlowEdge f t None) = JObj [(''from'', JStr f), (''to'', JStr t)]"
| "edge_json (FlowEdge f t (Some l)) =
     JObj [(''from'', JStr f), (''to'', JStr t), (''label'', JStr l)]"

fun graph_json :: "flow_graph \<Rightarrow> json" where
  "graph_json (FlowGraph ns es) =
     JObj [(''nodes'', JArr (map node_json ns)), (''edges'', JArr (map edge_json es))]"

section \<open>The script\<close>

subsection \<open>Operations on decoded values\<close>

text \<open>The exceptions that the block under the button can raise and catch.\<close>

datatype py_exn =
    KeyError string
  | TypeError
  | AttributeError
  | ClientError
  | JSONDecodeError
  | RecursionError
  | ValueError

text \<open>\<^verbatim>\<open>obj[key]\<close> with a string key: only a dictionary can be indexed by a string.\<close>

fun py_getitem :: "json \<Rightarrow> string \<Rightarrow> py_exn + json" where
  "py_getitem (JObj d) k = (case map_of d k of None \<Rightarrow> Inl (KeyError k) | Some v \<Rightarrow> Inr v)"
| "py_getitem _ k = Inl TypeError"

text \<open>
  \<^verbatim>\<open>key in obj\<close> with a string key: a key of a dictionary, an element of a list, a
  substring of a string; the other values are not containers.
\<close>

fun py_contains :: "string \<Rightarrow> json \<Rightarrow> py_exn + bool" where
  "py_contains k (JObj d) = Inr (k \<in> set (map fst d))"
| "py_contains k (JArr vs) = Inr (JStr k \<in> set vs)"
| "py_contains k (JStr t) = Inr (str_in k t)"
| "py_contains k _ = Inl TypeError"

text \<open>
  \<^verbatim>\<open>for x in obj\<close>: the elements of a list, the keys of a dictionary, the characters
  of a string (here its bytes, each as a string of its own).
\<close>

fun py_iter :: "json \<Rightarrow> py_exn + json list" where
  "py_iter (JArr vs) = Inr vs"
| "py_iter (JObj d) = Inr (map (\<lambda>kv. JStr (fst kv)) d)"
| "py_iter (JStr t) = Inr (map (\<lambda>c. JStr [c]) t)"
| "py_iter _ = Inl TypeError"

text \<open>\<^verbatim>\<open>obj.get(key, default)\<close>: a method of dictionaries only.\<close>

fun py_get :: "json \<Rightarrow> string \<Rightarrow> json \<Rightarrow> py_exn + json" where
  "py_get (JObj d) k dflt = Inr (case map_of d k of None \<Rightarrow> dflt | Some v \<Rightarrow> v)"
| "py_get _ k dflt = Inl AttributeError"

subsection \<open>The decoder under the limits of the interpreter\<close>

text \<open>
  \<^verbatim>\<open>json.loads\<close> raises \<^verbatim>\<open>json.JSONDecodeError\<close> on a text that is not a JSON document.
  It can raise two other exceptions: \<^verbatim>\<open>RecursionError\<close>, when arrays and objects are
  nested deeper than the recursion limit allows, and a plain \<^verbatim>\<open>ValueError\<close>, when an
  integer literal has more digits than \<^verbatim>\<open>sys.get_int_max_str_digits()\<close>. The limits
  are parameters: the depth that is left at the call depends on the stack below it.
\<close>

record limits =
  max_depth :: nat
  int_max_str_digits :: nat

text \<open>The defaults of CPython 3.11: a recursion limit of 1000, 4300 digits.\<close>

definition cpython_limits :: limits where
  "cpython_limits = \<lparr>max_depth = 1000, int_max_str_digits = 4300\<rparr>"

text \<open>
  The number of digits of the integer part of the number literal at the start of the
  text, without its sign: what the digit limit of \<^verbatim>\<open>int(...)\<close> counts.
\<close>

definition int_digits :: "string \<Rightarrow> nat" where
  "int_digits s =
     (case scan_int_part (case s of [] \<Rightarrow> [] | c # cs \<Rightarrow> if c = CHR ''-'' then cs else s) of
        None \<Rightarrow> 0
      | Some (integer, r) \<Rightarrow> length integer)"

text \<open>
  A number or one of the literals. The integer literals are converted by \<^verbatim>\<open>int\<close>, which
  raises \<^verbatim>\<open>ValueError\<close> above the digit limit (a limit of 0 switches the test off); a
  float literal has no such limit.
\<close>

definition dec_literal :: "limits \<Rightarrow> string \<Rightarrow> py_exn + (json \<times> string)" where
  "dec_literal lim s =
     (case scan_literal s of
        None \<Rightarrow> Inl JSONDecodeError
      | Some (v, r) \<Rightarrow>
          (case v of
             JInt i \<Rightarrow>
               if 0 < int_max_str_digits lim \<and> int_max_str_digits lim < int_digits s
               then Inl ValueError
               else Inr (v, r)
           | _ \<Rightarrow> Inr (v, r)))"

text \<open>
  The decoder as it runs, with the same structure as \<open>parse_value\<close>. The second argument
  is the number of nested containers that may still be entered: the scanner checks the
  recursion depth when it meets an opening brace or bracket, before it reads the
  content. The first exception met in the scan from left to right is the one raised.
\<close>

function dec_value :: "limits \<Rightarrow> nat \<Rightarrow> string \<Rightarrow> py_exn + (json \<times> string)"
  and dec_elements :: "limits \<Rightarrow> nat \<Rightarrow> string \<Rightarrow> py_exn + (json list \<times> string)"
  and dec_members :: "limits \<Rightarrow> nat \<Rightarrow> string \<Rightarrow> py_exn + ((string \<times> json) list \<times> string)"
where
  "dec_value lim n s =
     (case s of
        [] \<Rightarrow> Inl JSONDecodeError
      | c # cs \<Rightarrow>
          if c = CHR 0x22 then
            (case scanstring cs of
               None \<Rightarrow> Inl JSONDecodeError
             | Some (t, r) \<Rightarrow> Inr (JStr t, r))
          else if c = CHR ''{'' then
            (if n = 0 then Inl RecursionError
             else
               (case skip_ws cs of
                  [] \<Rightarrow> Inl JSONDecodeError
                | d # ds \<Rightarrow>
                    if d = CHR ''}'' then Inr (JObj [], ds)
                    else if d = CHR 0x22 then
                      (case dec_members lim (n - 1) ds of
                         Inl e \<Rightarrow> Inl e
                       | Inr (pairs, r) \<Rightarrow> Inr (JObj (py_dict pairs), r))
                    else Inl JSONDecodeError))
          else if c = CHR ''['' then
            (if n = 0 then Inl RecursionError
             else
               (case skip_ws cs of
                  [] \<Rightarrow> Inl JSONDecodeError
                | d # ds \<Rightarrow>
                    if d = CHR '']'' then Inr (JArr [], ds)
                    else
                      (case dec_elements lim (n - 1) (d # ds) of
                         Inl e \<Rightarrow> Inl e
                       | Inr (vs, r) \<Rightarrow> Inr (JArr vs, r))))
          else dec_literal lim s)"
| "dec_elements lim n s =
     (case dec_value lim n s of
        Inl e \<Rightarrow> Inl e
      | Inr (v, r) \<Rightarrow>
          if length r < length s then
            (case skip_ws r of
               [] \<Rightarrow> Inl JSONDecodeError
             | d # ds \<Rightarrow>
                 if d = CHR '']'' then Inr ([v], ds)
                 else if d = CHR '','' then
                   (case dec_elements lim n (skip_ws ds) of
                      Inl e \<Rightarrow> Inl e
                    | Inr (vs, r') \<Rightarrow> Inr (v # vs, r'))
                 else Inl JSONDecodeError)
          else Inl JSONDecodeError)"
| "dec_members lim n s =
     (case scanstring s of
        None \<Rightarrow> Inl JSONDecodeError
      | Some (key, r) \<Rightarrow>
          (case skip_ws r of
             [] \<Rightarrow> Inl JSONDecodeError
           | c # cs \<Rightarrow>
               if c = CHR '':'' then
                 (case dec_value lim n (skip_ws cs) of
                    Inl e \<Rightarrow> Inl e
                  | Inr (v, r1) \<Rightarrow>
                      if length r1 < length s then
                        (case skip_ws r1 of
                           [] \<Rightarrow> Inl JSONDecodeError
                         | d # ds \<Rightarrow>
                             if d = CHR ''}'' then Inr ([(key, v)], ds)
                             else if d = CHR '','' then
                               (case skip_ws ds of
                                  [] \<Rightarrow> Inl JSONDecodeError
                                | e # es \<Rightarrow>
                                    if e = CHR 0x22 then
                                      (case dec_members lim n es of
                                         Inl x \<Rightarrow> Inl x
                                       | Inr (pairs, r') \<Rightarrow> Inr ((key, v) # pairs, r'))
                                    else Inl JSONDecodeError)
                             else Inl JSONDecodeError)
                      else Inl JSONDecodeError)
               else Inl JSONDecodeError))"
  by pat_completeness auto
termination
proof (relation "measure (\<lambda>x. case x of
          Inl (lim, n, s) \<Rightarrow> 2 * length s
        | Inr (Inl (lim, n, s)) \<Rightarrow> 2 * length s + 1
        | Inr (Inr (lim, n, s)) \<Rightarrow> 2 * length s + 1)", goal_cases)
  case 1
  show ?case by simp
next
  case (2 lim n s c cs d ds)
  then show ?case by (auto dest: skip_ws_Cons)
next
  case (3 lim n s c cs d ds)
  then show ?case using skip_ws_length [of cs] by auto
next
  case (4 lim n s)
  show ?case by simp
next
  case (5 lim n s x2 v r d ds)
  then show ?case using skip_ws_length [of ds] by (auto dest!: skip_ws_Cons)
next
  case (6 lim n s x2 key r c cs)
  then show ?case using skip_ws_length [of cs] by (auto dest!: skip_ws_Cons scanstring_length)
next
  case (7 lim n s x2 key r c cs x2a v r1 d ds e es)
  then show ?case by (auto dest!: skip_ws_Cons)
qed

declare dec_value.simps [simp del] dec_elements.simps [simp del] dec_members.simps [simp del]

text \<open>\<^verbatim>\<open>json.loads(s)\<close>: one value between optional whitespace, anything else after it is
  a decode error.\<close>

definition loads :: "limits \<Rightarrow> string \<Rightarrow> py_exn + json" where
  "loads lim s =
     (case dec_value lim (max_depth lim) (skip_ws s) of
        Inl e \<Rightarrow> Inl e
      | Inr (v, r) \<Rightarrow> if skip_ws r = [] then Inr v else Inl JSONDecodeError)"

text \<open>
  How a result of the decoder as it runs relates to the grammar: it is one of the two
  exceptions of the limits, or else the decode error of a text the grammar rejects, or
  the value the grammar gives.
\<close>

definition agrees :: "py_exn + 'a \<Rightarrow> 'a option \<Rightarrow> bool" where
  "agrees x p =
     (x = Inl RecursionError \<or> x = Inl ValueError
      \<or> x = (case p of None \<Rightarrow> Inl JSONDecodeError | Some y \<Rightarrow> Inr y))"

subsection \<open>Extraction\<close>

text \<open>
  Lines 207 to 228: the candidate is parsed, and the parsed value is tested for the two
  keys. A \<^verbatim>\<open>json.JSONDecodeError\<close> of the parser (the handler of line 219) and a missing
  key end the run with a message and the raw text; any other exception of the parser and
  an exception of the key test are left to the handler of line 315.
\<close>

datatype extract_error =
    MalformedOutput string
  | MissingField string
  | Raised py_exn

definition keys_present :: "json \<Rightarrow> py_exn + bool" where
  "keys_present graph_data =
     (case py_contains ''nodes'' graph_data of
        Inl e \<Rightarrow> Inl e
      | Inr False \<Rightarrow> Inr False
      | Inr True \<Rightarrow> py_contains ''edges'' graph_data)"

definition extraction :: "limits \<Rightarrow> string \<Rightarrow> extract_error + json" where
  "extraction lim flowchart_output =
     (case loads lim (json_string flowchart_output) of
        Inl e \<Rightarrow>
          if e = JSONDecodeError then Inl (MalformedOutput flowchart_output)
          else Inl (Raised e)
      | Inr graph_data \<Rightarrow>
          (case keys_present graph_data of
             Inl e \<Rightarrow> Inl (Raised e)
           | Inr False \<Rightarrow> Inl (MissingField flowchart_output)
           | Inr True \<Rightarrow> Inr graph_data))"

text \<open>
  The same lines when the decoder reaches no limit of the interpreter, stated on the
  grammar: \<open>extraction_within_limits\<close> shows that \<open>extraction\<close> is this function
  whenever \<open>loads\<close> raises neither \<^verbatim>\<open>RecursionError\<close> nor \<^verbatim>\<open>ValueError\<close>.
\<close>

definition extract_graph :: "string \<Rightarrow> extract_error + json" where
  "extract_graph flowchart_output =
     (case json_loads (json_string flowchart_output) of
        None \<Rightarrow> Inl (MalformedOutput flowchart_output)
      | Some graph_data \<Rightarrow>
          (case keys_present graph_data of
             Inl e \<Rightarrow> Inl (Raised e)
           | Inr False \<Rightarrow> Inl (MissingField flowchart_output)
           | Inr True \<Rightarrow> Inr graph_data))"

subsection \<open>Rendering\<close>

text \<open>
  The diagram is the list of the statements that \<^verbatim>\<open>dot.node\<close> and \<^verbatim>\<open>dot.edge\<close> add to
  the \<^verbatim>\<open>Digraph\<close>, in order. A node name is the formatted text \<^verbatim>\<open>f"N_{...}"\<close> of an id,
  kept as the value under the prefix. A node statement has the name, the label, the four
  style attributes and the tooltip; an edge statement has the two names, the label, the
  colour and the pen width.
\<close>

datatype node_name = N_prefixed json

datatype stmt =
    Node_stmt node_name string node_attrs string
  | Edge_stmt node_name node_name string string string

text \<open>The node loop, lines 236 to 273. \<^verbatim>\<open>node_label.lower()\<close> needs a string.\<close>

fun add_nodes :: "json list \<Rightarrow> stmt list \<Rightarrow> py_exn + stmt list" where
  "add_nodes [] dot = Inr dot"
| "add_nodes (node # rest) dot =
     (case py_getitem node ''id'' of
        Inl e \<Rightarrow> Inl e
      | Inr node_id \<Rightarrow>
          (case py_getitem node ''label'' of
             Inl e \<Rightarrow> Inl e
           | Inr (JStr node_label) \<Rightarrow>
               add_nodes rest
                 (dot @ [Node_stmt (N_prefixed node_id) node_label (node_style node_label)
                           node_label])
           | Inr _ \<Rightarrow> Inl AttributeError))"

text \<open>The edge loop, lines 276 to 297. \<^verbatim>\<open>label_text.lower()\<close> needs a string.\<close>

fun add_edges :: "json list \<Rightarrow> stmt list \<Rightarrow> py_exn + stmt list" where
  "add_edges [] dot = Inr dot"
| "add_edges (edge # rest) dot =
     (case py_getitem edge ''from'' of
        Inl e \<Rightarrow> Inl e
      | Inr edge_from \<Rightarrow>
          (case py_getitem edge ''to'' of
             Inl e \<Rightarrow> Inl e
           | Inr edge_to \<Rightarrow>
               (case py_get edge ''label'' (JStr []) of
                  Inl e \<Rightarrow> Inl e
                | Inr (JStr label_text) \<Rightarrow>
                    add_edges rest
                      (dot @ [Edge_stmt (N_prefixed edge_from) (N_prefixed edge_to) label_text
                                (edge_color label_text) ''2.0''])
                | Inr _ \<Rightarrow> Inl AttributeError)))"

definition render :: "json \<Rightarrow> py_exn + stmt list" where
  "render graph_data =
     (case py_getitem graph_data ''nodes'' of
        Inl e \<Rightarrow> Inl e
      | Inr ns \<Rightarrow>
          (case py_iter ns of
             Inl e \<Rightarrow> Inl e
           | Inr nodes \<Rightarrow>
               (case add_nodes nodes [] of
                  Inl e \<Rightarrow> Inl e
                | Inr dot \<Rightarrow>
                    (case py_getitem graph_data ''edges'' of
                       Inl e \<Rightarrow> Inl e
                     | Inr es \<Rightarrow>
                         (case py_iter es of
                            Inl e \<Rightarrow> Inl e
                          | Inr edges \<Rightarrow> add_edges edges dot)))))"

text \<open>
  The entries that the two loops process without an exception: a node object with an
  \<^verbatim>\<open>id\<close> and a string \<^verbatim>\<open>label\<close>, an edge object with \<^verbatim>\<open>from\<close>, \<^verbatim>\<open>to\<close> and a label that
  is unset or a string.
\<close>

fun well_formed_node :: "json \<Rightarrow> bool" where
  "well_formed_node (JObj d) =
     (case (map_of d ''id'', map_of d ''label'') of
        (Some i, Some (JStr l)) \<Rightarrow> True
      | _ \<Rightarrow> False)"
| "well_formed_node _ = False"

fun well_formed_edge :: "json \<Rightarrow> bool" where
  "well_formed_edge (JObj d) =
     (map_of d ''from'' \<noteq> None \<and> map_of d ''to'' \<noteq> None
      \<and> (case map_of d ''label'' of
            None \<Rightarrow> True
          | Some (JStr l) \<Rightarrow> True
          | Some _ \<Rightarrow> False))"
| "well_formed_edge _ = False"

subsection \<open>The block under the button\<close>

text \<open>
  What a run shows, as the list of the display calls it makes. \<^verbatim>\<open>st.stop()\<close> ends the
  run by an exception that is not an \<^verbatim>\<open>Exception\<close>, so the handler of line 315 does
  not see it; every \<^verbatim>\<open>Exception\<close> raised inside the \<^verbatim>\<open>try\<close> block ends the run with
  the message of that handler. The expander holds the pretty-printed parsed value.
\<close>

datatype message =
    Paste_code_first
  | Invalid_json
  | Missing_nodes_or_edges
  | Generation_failed py_exn

datatype ui =
    St_warning message
  | St_error message
  | St_code string
  | St_graphviz_chart "stmt list"
  | St_markdown string
  | St_subheader string
  | St_write string
  | St_expander_code json

definition show_run :: "limits \<Rightarrow> string \<Rightarrow> string \<Rightarrow> ui list" where
  "show_run lim flowchart_output code_explanation =
     (case extraction lim flowchart_output of
        Inl (MalformedOutput raw) \<Rightarrow> [St_error Invalid_json, St_code raw]
      | Inl (MissingField raw) \<Rightarrow> [St_error Missing_nodes_or_edges, St_code raw]
      | Inl (Raised e) \<Rightarrow> [St_error (Generation_failed e)]
      | Inr graph_data \<Rightarrow>
          (case render graph_data of
             Inl e \<Rightarrow> [St_error (Generation_failed e)]
           | Inr dot \<Rightarrow>
               [St_graphviz_chart dot, St_markdown ''---'', St_subheader ''Code Explanation'',
                St_write code_explanation, St_expander_code graph_data]))"

text \<open>
  What the run shows when the decoder reaches no limit of the interpreter
  (\<open>extraction_within_limits\<close>).
\<close>

definition show_result :: "string \<Rightarrow> string \<Rightarrow> ui list" where
  "show_result flowchart_output code_explanation =
     (case extract_graph flowchart_output of
        Inl (MalformedOutput raw) \<Rightarrow> [St_error Invalid_json, St_code raw]
      | Inl (MissingField raw) \<Rightarrow> [St_error Missing_nodes_or_edges, St_code raw]
      | Inl (Raised e) \<Rightarrow> [St_error (Generation_failed e)]
      | Inr graph_data \<Rightarrow>
          (case render graph_data of
             Inl e \<Rightarrow> [St_error (Generation_failed e)]
           | Inr dot \<Rightarrow>
               [St_graphviz_chart dot, St_markdown ''---'', St_subheader ''Code Explanation'',
                St_write code_explanation, St_expander_code graph_data]))"

text \<open>
  The two calls of the completion service, each with the chosen model and a prompt that
  embeds the code input. The client is a parameter: it answers a request with the content
  of the first choice, or raises. The limits of the interpreter are a parameter too.
\<close>

datatype request =
    Flowchart_request string string
  | Explanation_request string string

record run =
  calls :: "request list"
  shown :: "ui list"

definition on_generate ::
  "limits \<Rightarrow> (request \<Rightarrow> py_exn + string) \<Rightarrow> string \<Rightarrow> string \<Rightarrow> run" where
  "on_generate lim client model_choice code_input =
     (if strip code_input = [] then \<lparr>calls = [], shown = [St_warning Paste_code_first]\<rparr>
      else
        (let flowchart_request = Flowchart_request model_choice code_input;
             explanation_request = Explanation_request model_choice code_input
         in case client flowchart_request of
              Inl e \<Rightarrow> \<lparr>calls = [flowchart_request], shown = [St_error (Generation_failed e)]\<rparr>
            | Inr flowchart_content \<Rightarrow>
                (case client explanation_request of
                   Inl e \<Rightarrow>
                     \<lparr>calls = [flowchart_request, explanation_request],
                      shown = [St_error (Generation_failed e)]\<rparr>
                 | Inr explanation_content \<Rightarrow>
                     \<lparr>calls = [flowchart_request, explanation_request],
                      shown = show_run lim (strip flowchart_content)
                                (strip explanation_content)\<rparr>)))"

section \<open>Properties of the string operations\<close>

lemma str_find_ge: "- 1 \<le> str_find s c"
  by (induction s) (auto simp: Let_def)

lemma str_find_absent: "str_find s c = - 1 \<longleftrightarrow> c \<notin> set s"
proof (induction s)
  case Nil
  show ?case by simp
next
  case (Cons x xs)
  have "- 1 \<le> str_find xs c" by (rule str_find_ge)
  with Cons show ?case by (auto simp: Let_def)
qed

lemma str_find_first: "c \<notin> set pre \<Longrightarrow> str_find (pre @ c # rest) c = int (length pre)"
  by (induction pre) (auto simp: Let_def)

lemma str_rfind_ge: "- 1 \<le> str_rfind s c"
  by (induction s) (auto simp: Let_def)

lemma str_rfind_absent: "str_rfind s c = - 1 \<longleftrightarrow> c \<notin> set s"
proof (induction s)
  case Nil
  show ?case by simp
next
  case (Cons x xs)
  have "- 1 \<le> str_rfind xs c" by (rule str_rfind_ge)
  with Cons show ?case by (auto simp: Let_def)
qed

lemma str_rfind_last: "c \<notin> set post \<Longrightarrow> str_rfind (pre @ c # post) c = int (length pre)"
proof (induction pre)
  case Nil
  then have "str_rfind post c = - 1" by (simp add: str_rfind_absent)
  then show ?case by (simp add: Let_def)
next
  case (Cons x xs)
  then show ?case by (simp add: Let_def)
qed

lemma py_slice_middle:
  "py_slice (pre @ mid @ post) (int (length pre)) (int (length pre + length mid)) = mid"
  by (simp add: py_slice_def slice_index_def Let_def)

lemma str_in_iff: "str_in kw s \<longleftrightarrow> (\<exists>ps ss. s = ps @ kw @ ss)"
proof -
  have sw: "starts_with k t \<longleftrightarrow> (\<exists>ss. t = k @ ss)" for k t
    by (induction k t rule: starts_with.induct) auto
  show ?thesis
  proof (induction s)
    case Nil
    show ?case by simp
  next
    case (Cons c cs)
    show ?case
    proof
      assume "str_in kw (c # cs)"
      then consider "starts_with kw (c # cs)" | "str_in kw cs" by auto
      then show "\<exists>ps ss. c # cs = ps @ kw @ ss"
      proof cases
        case 1
        then obtain ss where "c # cs = kw @ ss" using sw by blast
        then have "c # cs = [] @ kw @ ss" by simp
        then show ?thesis by blast
      next
        case 2
        then obtain ps ss where "cs = ps @ kw @ ss" using Cons by blast
        then have "c # cs = (c # ps) @ kw @ ss" by simp
        then show ?thesis by blast
      qed
    next
      assume "\<exists>ps ss. c # cs = ps @ kw @ ss"
      then obtain ps ss where eq: "c # cs = ps @ kw @ ss" by blast
      show "str_in kw (c # cs)"
      proof (cases ps)
        case Nil
        with eq have "starts_with kw (c # cs)" using sw by auto
        then show ?thesis by simp
      next
        case (Cons p ps')
        with eq have "cs = ps' @ kw @ ss" by simp
        then have "str_in kw cs" using Cons.IH by blast
        then show ?thesis by simp
      qed
    qed
  qed
qed


section \<open>Claims about styling\<close>

lemma contains_any_simps:
  "contains_any [] l = False"
  "contains_any (kw # kws) l = (str_in kw l \<or> contains_any kws l)"
  by (simp_all add: contains_any_def)

lemma node_style_refines:
  "(shape (node_style l), fillcolor (node_style l), fontcolor (node_style l)) = spec_node_style l"
  by (simp add: node_style_def spec_node_style_def node_rules_def contains_any_simps Let_def
      green_def yellow_def purple_def red_def light_blue_def default_blue_def)

lemma lower_simps:
  "lower [] = []"
  "c \<noteq> CHR 0xE2 \<Longrightarrow> c \<noteq> CHR 0xC4 \<Longrightarrow> lower (c # cs) = lower_char c # lower cs"
  by (simp_all add: lower.simps(2))

text \<open>
  C1, as the code has it. For every node label, the empty one included, the style lookup gives exactly one
  shape, fill colour and font colour: the result of the first keyword group, tested on
  the lower-cased label in the order start; check, if, loop, condition; return, end; call,
  function; initialize, variable, assign, that has a keyword occurring in the label, and
  box, blue, white when no keyword occurs. The label "Start: factorial(n)" gives oval,
  green, white; "Check n <= 1" gives diamond, yellow, black; the empty label gives box,
  blue, white. A label containing both "loop" and "return" never gets the style of the
  return rule: the rule of "loop" precedes it, and gives diamond, yellow, black (unless
  the rule of "start", first in the order, applies).
\<close>

theorem node_style_lookup:
  "(shape (node_style l), fillcolor (node_style l), fontcolor (node_style l))
     = first_match node_rules (''box'', default_blue, ''white'') (lower l)
   \<and> (shape (node_style ''Start: factorial(n)''), fillcolor (node_style ''Start: factorial(n)''),
       fontcolor (node_style ''Start: factorial(n)'')) = (''oval'', green, ''white'')
   \<and> (shape (node_style ''Check n <= 1''), fillcolor (node_style ''Check n <= 1''),
       fontcolor (node_style ''Check n <= 1'')) = (''diamond'', yellow, ''black'')
   \<and> (shape (node_style []), fillcolor (node_style []), fontcolor (node_style []))
       = (''box'', default_blue, ''white'')
   \<and> (str_in ''loop'' (lower l) \<and> str_in ''return'' (lower l) \<longrightarrow>
        (shape (node_style l), fillcolor (node_style l), fontcolor (node_style l))
          \<noteq> (''oval'', purple, ''white'')
        \<and> (\<not> str_in ''start'' (lower l) \<longrightarrow>
             (shape (node_style l), fillcolor (node_style l), fontcolor (node_style l))
               = (''diamond'', yellow, ''black'')))"
proof (intro conjI)
  show "(shape (node_style l), fillcolor (node_style l), fontcolor (node_style l))
     = first_match node_rules (''box'', default_blue, ''white'') (lower l)"
    using node_style_refines [of l] by (simp add: spec_node_style_def)
  show "(shape (node_style ''Start: factorial(n)''), fillcolor (node_style ''Start: factorial(n)''),
       fontcolor (node_style ''Start: factorial(n)'')) = (''oval'', green, ''white'')"
    by (simp add: node_style_def lower_simps lower_char_def green_def)
  show "(shape (node_style ''Check n <= 1''), fillcolor (node_style ''Check n <= 1''),
       fontcolor (node_style ''Check n <= 1'')) = (''diamond'', yellow, ''black'')"
    by (simp add: node_style_def lower_simps lower_char_def yellow_def)
  show "(shape (node_style []), fillcolor (node_style []), fontcolor (node_style []))
       = (''box'', default_blue, ''white'')"
    by (simp add: node_style_def lower_simps default_blue_def)
  show "str_in ''loop'' (lower l) \<and> str_in ''return'' (lower l) \<longrightarrow>
        (shape (node_style l), fillcolor (node_style l), fontcolor (node_style l))
          \<noteq> (''oval'', purple, ''white'')
        \<and> (\<not> str_in ''start'' (lower l) \<longrightarrow>
             (shape (node_style l), fillcolor (node_style l), fontcolor (node_style l))
               = (''diamond'', yellow, ''black''))"
    by (simp add: node_style_def Let_def purple_def yellow_def)
qed

theorem node_style_lookup_witness:
  "str_in ''loop'' (lower ''Loop until return'') \<and> str_in ''return'' (lower ''Loop until return'')
   \<and> \<not> str_in ''start'' (lower ''Loop until return'')
   \<and> (shape (node_style ''Loop until return''), fillcolor (node_style ''Loop until return''),
       fontcolor (node_style ''Loop until return'')) = (''diamond'', ''#FFD700'', ''black'')
   \<and> first_match node_rules (''box'', default_blue, ''white'') (lower ''Loop until return'')
       = (''diamond'', ''#FFD700'', ''black'')"
proof -
  have a: "str_in ''loop'' (lower ''Loop until return'')"
    by (simp add: lower_simps lower_char_def)
  have b: "str_in ''return'' (lower ''Loop until return'')"
    by (simp add: lower_simps lower_char_def)
  have c: "\<not> str_in ''start'' (lower ''Loop until return'')"
    by (simp add: lower_simps lower_char_def)
  from a b c node_style_lookup [of "''Loop until return''"] show ?thesis
    by (auto simp: yellow_def)
qed

text \<open>
  The label "Start loop, return" contains both "loop" and "return", and its style is not
  diamond, yellow, black: the rule of "start" comes first and gives oval, green, white.
\<close>

theorem node_style_lookup_counterexample:
  "str_in ''loop'' (lower ''Start loop, return'')
   \<and> str_in ''return'' (lower ''Start loop, return'')
   \<and> (shape (node_style ''Start loop, return''), fillcolor (node_style ''Start loop, return''),
       fontcolor (node_style ''Start loop, return'')) = (''oval'', ''#32CD32'', ''white'')
   \<and> (shape (node_style ''Start loop, return''), fillcolor (node_style ''Start loop, return''),
       fontcolor (node_style ''Start loop, return'')) \<noteq> (''diamond'', ''#FFD700'', ''black'')"
  by code_simp

text \<open>
  The test is on the result of \<^verbatim>\<open>lower\<close>, outside ASCII too: in the label "CHEC",
  Kelvin sign, " n <= 1" the Kelvin sign becomes \<^verbatim>\<open>k\<close>, and the rule of "check" applies.
\<close>

lemma node_style_kelvin_sign:
  "(shape (node_style (''CHEC'' @ [CHR 0xE2, CHR 0x84, CHR 0xAA] @ '' n <= 1'')),
    fillcolor (node_style (''CHEC'' @ [CHR 0xE2, CHR 0x84, CHR 0xAA] @ '' n <= 1'')),
    fontcolor (node_style (''CHEC'' @ [CHR 0xE2, CHR 0x84, CHR 0xAA] @ '' n <= 1'')))
     = (''diamond'', ''#FFD700'', ''black'')"
  by code_simp

lemma edge_color_refines: "edge_color (label_text_of label) = spec_edge_color label"
proof (cases label)
  case None
  then show ?thesis
    by (simp add: edge_color_def label_text_of_def spec_edge_color_def lower_simps gray_def)
next
  case (Some l)
  show ?thesis
  proof (cases "l = []")
    case True
    with Some show ?thesis
      by (simp add: edge_color_def label_text_of_def spec_edge_color_def lower_simps gray_def)
  next
    case False
    with Some show ?thesis
      by (simp add: edge_color_def label_text_of_def spec_edge_color_def edge_rules_def
          contains_any_simps Let_def green_def red_def loop_blue_def gray_def)
  qed
qed

text \<open>
  C6. For every edge whose label is unset or a string, the line colour is given by the
  ordered rules on the lower-cased label: exactly "yes" or containing "true" gives green;
  otherwise exactly "no" or containing "false" gives red; otherwise containing
  "iteration" or "loop" gives blue; otherwise gray. An unset or empty label matches no
  rule and gives gray. "Yes" gives green, "No" red, "Next Iteration" blue.
\<close>

theorem edge_color_rules:
  "edge_color (label_text_of label) =
     (case label of
        None \<Rightarrow> gray
      | Some t \<Rightarrow>
          if lower t = ''yes'' \<or> str_in ''true'' (lower t) then green
          else if lower t = ''no'' \<or> str_in ''false'' (lower t) then red
          else if str_in ''iteration'' (lower t) \<or> str_in ''loop'' (lower t) then loop_blue
          else gray)
   \<and> edge_color (label_text_of label) = spec_edge_color label
   \<and> edge_color (label_text_of None) = gray
   \<and> edge_color (label_text_of (Some [])) = gray
   \<and> edge_color (label_text_of (Some ''Yes'')) = green
   \<and> edge_color (label_text_of (Some ''No'')) = red
   \<and> edge_color (label_text_of (Some ''Next Iteration'')) = loop_blue"
proof (intro conjI)
  show "edge_color (label_text_of label) =
     (case label of
        None \<Rightarrow> gray
      | Some t \<Rightarrow>
          if lower t = ''yes'' \<or> str_in ''true'' (lower t) then green
          else if lower t = ''no'' \<or> str_in ''false'' (lower t) then red
          else if str_in ''iteration'' (lower t) \<or> str_in ''loop'' (lower t) then loop_blue
          else gray)"
    by (cases label)
       (simp_all add: edge_color_def label_text_of_def lower_simps Let_def
          green_def red_def loop_blue_def gray_def)
  show "edge_color (label_text_of label) = spec_edge_color label"
    by (rule edge_color_refines)
  show "edge_color (label_text_of None) = gray"
    by (simp add: edge_color_def label_text_of_def lower_simps gray_def)
  show "edge_color (label_text_of (Some [])) = gray"
    by (simp add: edge_color_def label_text_of_def lower_simps gray_def)
  show "edge_color (label_text_of (Some ''Yes'')) = green"
    by (simp add: edge_color_def label_text_of_def lower_simps lower_char_def green_def)
  show "edge_color (label_text_of (Some ''No'')) = red"
    by (simp add: edge_color_def label_text_of_def lower_simps lower_char_def red_def)
  show "edge_color (label_text_of (Some ''Next Iteration'')) = loop_blue"
    by (simp add: edge_color_def label_text_of_def lower_simps lower_char_def loop_blue_def)
qed

theorem edge_color_rules_witness:
  "edge_color (label_text_of (Some ''FALSE branch'')) = ''#FF6347''
   \<and> spec_edge_color (Some ''FALSE branch'') = ''#FF6347''"
proof -
  have "\<not> str_in ''true'' (lower ''FALSE branch'')" "str_in ''false'' (lower ''FALSE branch'')"
    "lower ''FALSE branch'' \<noteq> ''yes''"
    by (simp_all add: lower_simps lower_char_def)
  with edge_color_rules [of "Some ''FALSE branch''"] show ?thesis
    by (auto simp: red_def)
qed

section \<open>Claims about the JSON candidate\<close>

lemma json_string_absent:
  assumes "CHR ''{'' \<notin> set raw \<or> CHR ''}'' \<notin> set raw"
  shows "json_string raw = raw"
proof -
  from assms have "str_find raw CHR ''{'' = - 1 \<or> str_rfind raw CHR ''}'' = - 1"
    by (simp add: str_find_absent str_rfind_absent)
  then show ?thesis by (auto simp: json_string_def Let_def)
qed

lemma json_string_between:
  assumes "CHR ''{'' \<notin> set pre" and "CHR ''}'' \<notin> set post"
  shows "json_string (pre @ CHR ''{'' # mid @ CHR ''}'' # post) = CHR ''{'' # mid @ [CHR ''}'']"
proof -
  let ?raw = "pre @ CHR ''{'' # mid @ CHR ''}'' # post"
  have f: "str_find ?raw CHR ''{'' = int (length pre)"
    using assms(1) by (rule str_find_first)
  have "?raw = (pre @ CHR ''{'' # mid) @ CHR ''}'' # post" by simp
  then have "str_rfind ?raw CHR ''}'' = int (length (pre @ CHR ''{'' # mid))"
    using str_rfind_last [OF assms(2), of "pre @ CHR ''{'' # mid"] by simp
  then have r: "str_rfind ?raw CHR ''}'' = int (length pre) + int (length mid) + 1" by simp
  have "py_slice (pre @ (CHR ''{'' # mid @ [CHR ''}'']) @ post) (int (length pre))
          (int (length pre + length (CHR ''{'' # mid @ [CHR ''}'']))) = CHR ''{'' # mid @ [CHR ''}'']"
    by (rule py_slice_middle)
  then have s: "py_slice ?raw (int (length pre)) (int (length pre) + int (length mid) + 1 + 1)
      = CHR ''{'' # mid @ [CHR ''}'']"
    by (simp add: add.commute add.left_commute)
  show ?thesis
    unfolding json_string_def Let_def f r using s by simp
qed

lemma json_string_reversed:
  assumes "CHR ''{'' \<notin> set pre" and "CHR ''}'' \<notin> set post"
  shows "json_string (pre @ CHR ''}'' # post) = pre @ CHR ''}'' # post"
proof -
  let ?raw = "pre @ CHR ''}'' # post"
  have r: "str_rfind ?raw CHR ''}'' = int (length pre)"
    using assms(2) by (rule str_rfind_last)
  have "str_find ?raw CHR ''{'' = - 1 \<or> int (length pre) < str_find ?raw CHR ''{''"
  proof (cases "CHR ''{'' \<in> set post")
    case False
    with assms(1) have "CHR ''{'' \<notin> set ?raw" by simp
    then show ?thesis by (simp add: str_find_absent)
  next
    case True
    then obtain p1 p2 where post: "post = p1 @ CHR ''{'' # p2" and p1: "CHR ''{'' \<notin> set p1"
      by (meson split_list_first)
    have "CHR ''{'' \<notin> set (pre @ CHR ''}'' # p1)" using assms(1) p1 by simp
    then have "str_find ((pre @ CHR ''}'' # p1) @ CHR ''{'' # p2) CHR ''{''
        = int (length (pre @ CHR ''}'' # p1))"
      by (rule str_find_first)
    then show ?thesis using post by simp
  qed
  then show ?thesis
    unfolding json_string_def Let_def r by auto
qed

text \<open>
  C2, as the code has it. When an opening brace and a closing brace both occur and the
  last closing brace comes after the first opening brace, the candidate handed to the
  JSON parser is the substring from the first opening brace to the last closing brace,
  both included. When either character is absent, or when the last closing brace comes
  before the first opening brace, the candidate is the entire raw text.
\<close>

theorem json_string_candidate:
  "(CHR ''{'' \<notin> set pre \<and> CHR ''}'' \<notin> set post \<longrightarrow>
      json_string (pre @ CHR ''{'' # mid @ CHR ''}'' # post) = CHR ''{'' # mid @ [CHR ''}''])
   \<and> (CHR ''{'' \<notin> set raw \<or> CHR ''}'' \<notin> set raw \<longrightarrow> json_string raw = raw)
   \<and> (CHR ''{'' \<notin> set pre \<and> CHR ''}'' \<notin> set post \<longrightarrow>
      json_string (pre @ CHR ''}'' # post) = pre @ CHR ''}'' # post)"
  using json_string_between [of pre post mid] json_string_absent [of raw]
    json_string_reversed [of pre post]
  by blast

theorem json_string_candidate_witness:
  "json_string ''Sure: {\"nodes\": [], \"edges\": []} done'' = ''{\"nodes\": [], \"edges\": []}''
   \<and> json_string ''no json here'' = ''no json here''
   \<and> json_string ''a } then { b'' = ''a } then { b''"
proof -
  have 1: "json_string (''Sure: '' @ CHR ''{'' # ''\"nodes\": [], \"edges\": []'' @ CHR ''}'' # '' done'')
      = CHR ''{'' # ''\"nodes\": [], \"edges\": []'' @ [CHR ''}'']"
    using json_string_candidate [of "''Sure: ''" "'' done''" "''\"nodes\": [], \"edges\": []''" "[]"]
    by simp
  have 2: "json_string ''no json here'' = ''no json here''"
    using json_string_candidate [of "[]" "[]" "[]" "''no json here''"] by simp
  have 3: "json_string (''a '' @ CHR ''}'' # '' then { b'') = ''a '' @ CHR ''}'' # '' then { b''"
    using json_string_candidate [of "''a ''" "'' then { b''" "[]" "[]"] by simp
  from 1 2 3 show ?thesis by simp
qed

text \<open>
  The candidate as C2 states it differs from the code's on a text whose only closing
  brace precedes its only opening brace.
\<close>

theorem json_string_candidate_counterexample:
  "CHR ''{'' \<in> set ''}{'' \<and> CHR ''}'' \<in> set ''}{''
   \<and> json_string ''}{'' = ''}{'' \<and> spec_candidate ''}{'' = []
   \<and> json_string ''}{'' \<noteq> spec_candidate ''}{''"
  by (simp add: json_string_def spec_candidate_def py_slice_def slice_index_def Let_def)

section \<open>Properties of the decoder\<close>

text \<open>
  Every successful scan consumes input. For the decoder this makes the two tests on the
  length of the remaining input redundant: \<open>parse_elements\<close> and \<open>parse_members\<close>
  satisfy their equations without the tests.
\<close>

lemma dropWhile_digit_le: "length (dropWhile is_digit t) \<le> length t"
  by (rule length_dropWhile_le)

lemma scan_int_part_length: "scan_int_part s = Some (i, r) \<Longrightarrow> length r < length s"
proof (cases s)
  case Nil
  assume "scan_int_part s = Some (i, r)"
  with Nil show ?thesis by (simp add: scan_int_part_def)
next
  case (Cons c cs)
  assume a: "scan_int_part s = Some (i, r)"
  show ?thesis
  proof (cases "c = CHR ''0''")
    case True
    with a Cons show ?thesis by (simp add: scan_int_part_def)
  next
    case False
    with a Cons have d: "is_digit c" and r: "r = dropWhile is_digit (c # cs)"
      by (simp_all add: scan_int_part_def split: if_splits)
    from d r have "r = dropWhile is_digit cs" by simp
    then have "length r \<le> length cs" by (simp add: dropWhile_digit_le)
    with Cons show ?thesis by simp
  qed
qed

lemma scan_frac_length: "scan_frac s = (f, r) \<Longrightarrow> length r \<le> length s"
proof -
  assume a: "scan_frac s = (f, r)"
  show ?thesis
  proof (cases "\<exists>c d ds. s = c # d # ds \<and> c = CHR ''.'' \<and> is_digit d")
    case True
    then obtain c d ds where s: "s = c # d # ds" and c: "c = CHR ''.''" and d: "is_digit d"
      by blast
    with a have "r = dropWhile is_digit (d # ds)" by (simp add: scan_frac_def)
    then have "length r \<le> length (d # ds)" by (simp only: dropWhile_digit_le)
    with s show ?thesis by simp
  next
    case False
    with a have "r = s" by (auto simp: scan_frac_def split: list.splits if_splits)
    then show ?thesis by simp
  qed
qed

lemma scan_exp_length: "scan_exp s = (x, r) \<Longrightarrow> length r \<le> length s"
proof -
  assume a: "scan_exp s = (x, r)"
  have "r = s \<or> (\<exists>t. length t < length s \<and> r = dropWhile is_digit t)"
  proof (cases s)
    case Nil
    with a show ?thesis by (simp add: scan_exp_def)
  next
    case (Cons e cs)
    note s = Cons
    show ?thesis
    proof (cases cs)
      case Nil
      with a s show ?thesis by (simp add: scan_exp_def split: if_splits)
    next
      case (Cons g ds)
      have l1: "length cs < length s" and l2: "length ds < length s"
        using s Cons by simp_all
      from a s Cons have "r = s \<or> r = dropWhile is_digit ds \<or> r = dropWhile is_digit cs"
        by (simp add: scan_exp_def split: if_splits)
      with l1 l2 show ?thesis by blast
    qed
  qed
  then show ?thesis
  proof
    assume "r = s"
    then show ?thesis by simp
  next
    assume "\<exists>t. length t < length s \<and> r = dropWhile is_digit t"
    then obtain t where t: "length t < length s" and r: "r = dropWhile is_digit t" by blast
    have "length r \<le> length t" unfolding r by (rule dropWhile_digit_le)
    with t show ?thesis by simp
  qed
qed

lemma number_tail_length:
  assumes "number_tail sign s1 = Some (v, r)"
  shows "length r < length s1"
proof (cases "scan_int_part s1")
  case None
  with assms show ?thesis by (simp add: number_tail_def)
next
  case (Some p)
  obtain integer s2 where p: "p = (integer, s2)" by (cases p)
  obtain frac s3 where fr: "scan_frac s2 = (frac, s3)" by (cases "scan_frac s2")
  obtain ex s4 where ex: "scan_exp s3 = (ex, s4)" by (cases "scan_exp s3")
  have "r = s4"
  proof (cases "frac = [] \<and> ex = []")
    case True
    with assms Some p fr ex show ?thesis by (simp add: number_tail_def)
  next
    case False
    with assms Some p fr ex show ?thesis by (simp add: number_tail_def)
  qed
  moreover have "length s2 < length s1"
    using Some p scan_int_part_length by simp
  moreover have "length s3 \<le> length s2" using fr by (rule scan_frac_length)
  moreover have "length s4 \<le> length s3" using ex by (rule scan_exp_length)
  ultimately show ?thesis by simp
qed

lemma match_number_length: "match_number s = Some (v, r) \<Longrightarrow> length r < length s"
proof (cases s)
  case Nil
  assume "match_number s = Some (v, r)"
  with Nil have "number_tail [] [] = Some (v, r)" by (simp add: match_number_def)
  then show ?thesis by (simp add: number_tail_def scan_int_part_def)
next
  case (Cons c cs)
  assume m: "match_number s = Some (v, r)"
  show ?thesis
  proof (cases "c = CHR ''-''")
    case True
    with m Cons have "number_tail [c] cs = Some (v, r)" by (simp add: match_number_def)
    then have "length r < length cs" by (rule number_tail_length)
    with Cons show ?thesis by simp
  next
    case False
    with m Cons have "number_tail [] s = Some (v, r)" by (simp add: match_number_def)
    then show ?thesis by (rule number_tail_length)
  qed
qed

lemma keyword_drop:
  assumes "starts_with k s" and "0 < n" and "n \<le> length k"
  shows "length (drop n s) < length s"
  using assms starts_with_length [of k s] by simp

lemma scan_literal_length:
  assumes "scan_literal s = Some (v, r)"
  shows "length r < length s"
proof (cases "starts_with ''null'' s")
  case True
  with assms have "r = drop 4 s" by (simp add: scan_literal_def)
  then show ?thesis using keyword_drop [OF True, of 4] by simp
next
  case n1: False
  show ?thesis
  proof (cases "starts_with ''true'' s")
    case True
    with assms n1 have "r = drop 4 s" by (simp add: scan_literal_def)
    then show ?thesis using keyword_drop [OF True, of 4] by simp
  next
    case n2: False
    show ?thesis
    proof (cases "starts_with ''false'' s")
      case True
      with assms n1 n2 have "r = drop 5 s" by (simp add: scan_literal_def)
      then show ?thesis using keyword_drop [OF True, of 5] by simp
    next
      case n3: False
      show ?thesis
      proof (cases "match_number s")
        case (Some p)
        with assms n1 n2 n3 have "match_number s = Some (v, r)"
          by (simp add: scan_literal_def)
        then show ?thesis by (rule match_number_length)
      next
        case None
        show ?thesis
        proof (cases "starts_with ''NaN'' s")
          case True
          with assms n1 n2 n3 None have "r = drop 3 s" by (simp add: scan_literal_def)
          then show ?thesis using keyword_drop [OF True, of 3] by simp
        next
          case n4: False
          show ?thesis
          proof (cases "starts_with ''Infinity'' s")
            case True
            with assms n1 n2 n3 n4 None have "r = drop 8 s" by (simp add: scan_literal_def)
            then show ?thesis using keyword_drop [OF True, of 8] by simp
          next
            case n5: False
            show ?thesis
            proof (cases "starts_with ''-Infinity'' s")
              case True
              with assms n1 n2 n3 n4 n5 None have "r = drop 9 s"
                by (simp add: scan_literal_def)
              then show ?thesis using keyword_drop [OF True, of 9] by simp
            next
              case False
              with assms n1 n2 n3 n4 n5 None show ?thesis by (simp add: scan_literal_def)
            qed
          qed
        qed
      qed
    qed
  qed
qed

lemma parse_value_cases:
  assumes "parse_value s = Some (v, r)"
  obtains
    (str) cs t where "s = CHR 0x22 # cs" "scanstring cs = Some (t, r)" "v = JStr t"
  | (empty_object) cs where "s = CHR ''{'' # cs" "skip_ws cs = CHR ''}'' # r" "v = JObj []"
  | (object) cs ds pairs where "s = CHR ''{'' # cs" "skip_ws cs = CHR 0x22 # ds"
      "parse_members ds = Some (pairs, r)" "v = JObj (py_dict pairs)"
  | (empty_array) cs where "s = CHR ''['' # cs" "skip_ws cs = CHR '']'' # r" "v = JArr []"
  | (array) cs d ds vs where "s = CHR ''['' # cs" "skip_ws cs = d # ds" "d \<noteq> CHR '']''"
      "parse_elements (d # ds) = Some (vs, r)" "v = JArr vs"
  | (literal) "scan_literal s = Some (v, r)"
  using assms
  by (subst (asm) parse_value.simps)
     (auto split: list.splits if_splits option.splits prod.splits)

lemma parse_elements_cases:
  assumes "parse_elements s = Some (vs, r)"
  obtains
    (last) v r0 where "parse_value s = Some (v, r0)" "length r0 < length s"
      "skip_ws r0 = CHR '']'' # r" "vs = [v]"
  | (more) v r0 ds vs' where "parse_value s = Some (v, r0)" "length r0 < length s"
      "skip_ws r0 = CHR '','' # ds" "parse_elements (skip_ws ds) = Some (vs', r)" "vs = v # vs'"
  using assms
  by (subst (asm) parse_elements.simps)
     (auto split: list.splits if_splits option.splits prod.splits)

lemma parse_members_cases:
  assumes "parse_members s = Some (ps, r)"
  obtains
    (last) key r0 cs v r1 where "scanstring s = Some (key, r0)" "skip_ws r0 = CHR '':'' # cs"
      "parse_value (skip_ws cs) = Some (v, r1)" "length r1 < length s"
      "skip_ws r1 = CHR ''}'' # r" "ps = [(key, v)]"
  | (more) key r0 cs v r1 ds es ps' where "scanstring s = Some (key, r0)"
      "skip_ws r0 = CHR '':'' # cs" "parse_value (skip_ws cs) = Some (v, r1)"
      "length r1 < length s" "skip_ws r1 = CHR '','' # ds" "skip_ws ds = CHR 0x22 # es"
      "parse_members es = Some (ps', r)" "ps = (key, v) # ps'"
  using assms
  by (subst (asm) parse_members.simps)
     (auto split: list.splits if_splits option.splits prod.splits)

lemma parse_length_aux:
  "length s = n \<Longrightarrow>
     (\<forall>v r. parse_value s = Some (v, r) \<longrightarrow> length r < length s)
     \<and> (\<forall>vs r. parse_elements s = Some (vs, r) \<longrightarrow> length r < length s)
     \<and> (\<forall>ps r. parse_members s = Some (ps, r) \<longrightarrow> length r < length s)"
proof (induction n arbitrary: s rule: less_induct)
  case (less n)
  have ih_elements: "length r < length t"
    if "length t < length s" "parse_elements t = Some (vs, r)" for t vs r
    using less.IH [of "length t" t] that less.prems by blast
  have ih_members: "length r < length t"
    if "length t < length s" "parse_members t = Some (ps, r)" for t ps r
    using less.IH [of "length t" t] that less.prems by blast
  have "length r < length s" if "parse_value s = Some (v, r)" for v r
    using that
  proof (cases rule: parse_value_cases)
    case (str cs t)
    then show ?thesis using scanstring_length [of cs t r] by simp
  next
    case (empty_object cs)
    then show ?thesis using skip_ws_Cons [of cs "CHR ''}''" r] by simp
  next
    case (object cs ds pairs)
    have l: "length ds < length cs" using object(2) by (rule skip_ws_Cons)
    with object(1) have "length ds < length s" by simp
    then have "length r < length ds" using object(3) by (rule ih_members)
    with l object(1) show ?thesis by simp
  next
    case (empty_array cs)
    then show ?thesis using skip_ws_Cons [of cs "CHR '']''" r] by simp
  next
    case (array cs d ds vs)
    have l: "length (d # ds) \<le> length cs"
      using skip_ws_length [of cs] array(2) by simp
    with array(1) have "length (d # ds) < length s" by simp
    then have "length r < length (d # ds)" using array(4) by (rule ih_elements)
    with l array(1) show ?thesis by simp
  next
    case literal
    then show ?thesis by (rule scan_literal_length)
  qed
  moreover have "length r < length s" if "parse_elements s = Some (vs, r)" for vs r
    using that
  proof (cases rule: parse_elements_cases)
    case (last v r0)
    then show ?thesis using skip_ws_Cons [of r0 "CHR '']''" r] by simp
  next
    case (more v r0 ds vs')
    have l: "length ds < length r0" using more(3) by (rule skip_ws_Cons)
    have l2: "length (skip_ws ds) \<le> length ds" by (rule skip_ws_length)
    from l l2 more(2) have "length (skip_ws ds) < length s" by simp
    then have "length r < length (skip_ws ds)" using more(4) by (rule ih_elements)
    with l l2 more(2) show ?thesis by simp
  qed
  moreover have "length r < length s" if "parse_members s = Some (ps, r)" for ps r
    using that
  proof (cases rule: parse_members_cases)
    case (last key r0 cs v r1)
    then show ?thesis using skip_ws_Cons [of r1 "CHR ''}''" r] by simp
  next
    case (more key r0 cs v r1 ds es ps')
    have l: "length ds < length r1" using more(5) by (rule skip_ws_Cons)
    have l2: "length es < length ds" using more(6) by (rule skip_ws_Cons)
    from l l2 more(4) have "length es < length s" by simp
    then have "length r < length es" using more(7) by (rule ih_members)
    with l l2 more(4) show ?thesis by simp
  qed
  ultimately show ?case by blast
qed

lemma parse_value_length: "parse_value s = Some (v, r) \<Longrightarrow> length r < length s"
  using parse_length_aux [of s "length s"] by blast

lemma parse_elements_unguarded:
  "parse_elements s =
     (case parse_value s of
        None \<Rightarrow> None
      | Some (v, r) \<Rightarrow>
          (case skip_ws r of
             [] \<Rightarrow> None
           | d # ds \<Rightarrow>
               if d = CHR '']'' then Some ([v], ds)
               else if d = CHR '','' then
                 (case parse_elements (skip_ws ds) of
                    None \<Rightarrow> None
                  | Some (vs, r') \<Rightarrow> Some (v # vs, r'))
               else None))"
proof (cases "parse_value s")
  case None
  then show ?thesis by (subst parse_elements.simps) simp
next
  case (Some p)
  obtain v r where p: "p = (v, r)" by (cases p)
  with Some have "length r < length s" using parse_value_length by simp
  with Some p show ?thesis by (subst parse_elements.simps) simp
qed

lemma parse_members_unguarded:
  "parse_members s =
     (case scanstring s of
        None \<Rightarrow> None
      | Some (key, r) \<Rightarrow>
          (case skip_ws r of
             [] \<Rightarrow> None
           | c # cs \<Rightarrow>
               if c = CHR '':'' then
                 (case parse_value (skip_ws cs) of
                    None \<Rightarrow> None
                  | Some (v, r1) \<Rightarrow>
                      (case skip_ws r1 of
                         [] \<Rightarrow> None
                       | d # ds \<Rightarrow>
                           if d = CHR ''}'' then Some ([(key, v)], ds)
                           else if d = CHR '','' then
                             (case skip_ws ds of
                                [] \<Rightarrow> None
                              | e # es \<Rightarrow>
                                  if e = CHR 0x22 then
                                    (case parse_members es of
                                       None \<Rightarrow> None
                                     | Some (pairs, r') \<Rightarrow> Some ((key, v) # pairs, r'))
                                  else None)
                           else None))
               else None))"
proof -
  have guard: "length r1 < length s"
    if "scanstring s = Some (key, r)" "skip_ws r = c # cs"
      "parse_value (skip_ws cs) = Some (v, r1)" for key r c cs v r1
  proof -
    have "length r1 < length (skip_ws cs)" using that(3) by (rule parse_value_length)
    moreover have "length (skip_ws cs) \<le> length cs" by (rule skip_ws_length)
    moreover have "length cs < length r" using that(2) by (rule skip_ws_Cons)
    moreover have "length r < length s" using that(1) by (rule scanstring_length)
    ultimately show ?thesis by simp
  qed
  show ?thesis
    by (subst parse_members.simps)
       (auto split: option.splits list.splits prod.splits dest: guard)
qed

lemma number_tail_kind:
  "number_tail sign s1 = Some (v, r) \<Longrightarrow> (\<exists>i. v = JInt i) \<or> (\<exists>x. v = JFloat x)"
  by (auto simp: number_tail_def Let_def split: prod.splits option.splits if_splits)

lemma match_number_kind:
  "match_number s = Some (v, r) \<Longrightarrow> (\<exists>i. v = JInt i) \<or> (\<exists>x. v = JFloat x)"
  by (cases s) (auto simp: match_number_def split: if_splits dest: number_tail_kind)

lemma scan_literal_kind:
  "scan_literal s = Some (v, r) \<Longrightarrow> (\<forall>d. v \<noteq> JObj d)"
  by (auto simp: scan_literal_def split: if_splits option.splits dest: match_number_kind)

lemma parse_value_JObj:
  assumes "parse_value s = Some (JObj d, r)"
  shows "\<exists>cs. s = CHR ''{'' # cs"
  using assms scan_literal_kind [of s "JObj d" r]
  by (subst (asm) parse_value.simps)
     (auto split: list.splits if_splits option.splits prod.splits)

lemma parse_value_brace:
  assumes "parse_value (CHR ''{'' # cs) = Some (v, r)"
  shows "\<exists>d. v = JObj d"
  using assms
  by (subst (asm) parse_value.simps)
     (auto split: list.splits if_splits option.splits prod.splits)

lemma skip_ws_brace: "skip_ws (CHR ''{'' # cs) = CHR ''{'' # cs"
  by (simp add: skip_ws_def is_ws_def)

lemma set_skip_ws: "set (skip_ws s) \<subseteq> set s"
  by (auto simp: skip_ws_def dest: set_dropWhileD)

lemma json_loads_JObj:
  assumes "json_loads t = Some (JObj d)"
  shows "CHR ''{'' \<in> set t"
proof -
  from assms obtain r where "parse_value (skip_ws t) = Some (JObj d, r)"
    by (auto simp: json_loads_def split: option.splits if_splits)
  then obtain cs where "skip_ws t = CHR ''{'' # cs"
    using parse_value_JObj by blast
  then have "CHR ''{'' \<in> set (skip_ws t)" by simp
  then show ?thesis using set_skip_ws by blast
qed

lemma json_loads_brace:
  assumes "json_loads (CHR ''{'' # cs) = Some v"
  shows "\<exists>d. v = JObj d"
proof -
  from assms obtain r where "parse_value (CHR ''{'' # cs) = Some (v, r)"
    by (auto simp: json_loads_def skip_ws_brace split: option.splits if_splits)
  then show ?thesis by (rule parse_value_brace)
qed

subsection \<open>The decoder under limits and the grammar\<close>

lemma agrees_simps:
  "agrees (Inl JSONDecodeError) None"
  "agrees (Inl RecursionError) p"
  "agrees (Inl ValueError) p"
  "agrees (Inr y) (Some y)"
  by (simp_all add: agrees_def)

lemma agrees_bind:
  assumes "agrees x p" and "\<And>a. x = Inr a \<Longrightarrow> p = Some a \<Longrightarrow> agrees (f a) (g a)"
  shows "agrees (case x of Inl e \<Rightarrow> Inl e | Inr a \<Rightarrow> f a) (case p of None \<Rightarrow> None | Some a \<Rightarrow> g a)"
proof (cases x)
  case (Inl e)
  with assms(1) show ?thesis by (cases p) (auto simp: agrees_def)
next
  case (Inr a)
  with assms(1) have "p = Some a" by (cases p) (auto simp: agrees_def)
  with Inr assms(2) show ?thesis by simp
qed

lemma agrees_literal: "agrees (dec_literal lim s) (scan_literal s)"
proof (cases "scan_literal s")
  case None
  then show ?thesis by (simp add: dec_literal_def agrees_simps)
next
  case (Some p)
  obtain v r where p: "p = (v, r)" by (cases p)
  show ?thesis
  proof (cases v)
    case (JInt i)
    with Some p show ?thesis by (simp add: dec_literal_def agrees_simps)
  qed (use Some p in \<open>simp_all add: dec_literal_def agrees_simps\<close>)
qed

lemma agrees_value:
  assumes members: "\<And>t. length t < length s \<Longrightarrow> agrees (dec_members lim (n - 1) t) (parse_members t)"
    and elements: "\<And>t. length t < length s \<Longrightarrow> agrees (dec_elements lim (n - 1) t) (parse_elements t)"
  shows "agrees (dec_value lim n s) (parse_value s)"
proof (cases s)
  case Nil
  then show ?thesis
    by (subst dec_value.simps, subst parse_value.simps) (simp add: agrees_simps)
next
  case (Cons c cs)
  consider (str) "c = CHR 0x22" | (obj) "c = CHR ''{''" | (arr) "c = CHR ''[''"
    | (lit) "c \<noteq> CHR 0x22" "c \<noteq> CHR ''{''" "c \<noteq> CHR ''[''"
    by blast
  then show ?thesis
  proof cases
    case str
    have d: "dec_value lim n s =
        (case scanstring cs of None \<Rightarrow> Inl JSONDecodeError | Some (t, r) \<Rightarrow> Inr (JStr t, r))"
      by (subst dec_value.simps) (simp add: Cons str)
    have p: "parse_value s =
        (case scanstring cs of None \<Rightarrow> None | Some (t, r) \<Rightarrow> Some (JStr t, r))"
      by (subst parse_value.simps) (simp add: Cons str)
    show ?thesis unfolding d p
      by (cases "scanstring cs") (auto simp: agrees_simps)
  next
    case obj
    show ?thesis
    proof (cases "n = 0")
      case True
      have "dec_value lim n s = Inl RecursionError"
        by (subst dec_value.simps) (simp add: Cons obj True)
      then show ?thesis by (simp add: agrees_simps)
    next
      case False
      show ?thesis
      proof (cases "skip_ws cs")
        case Nil
        have d: "dec_value lim n s = Inl JSONDecodeError"
          by (subst dec_value.simps) (simp add: Cons obj False Nil)
        have p: "parse_value s = None"
          by (subst parse_value.simps) (simp add: Cons obj Nil)
        show ?thesis unfolding d p by (simp add: agrees_simps)
      next
        case (Cons d ds)
        note sk = Cons
        have len: "length ds < length s"
          using skip_ws_Cons [OF sk] \<open>s = c # cs\<close> by simp
        consider (close) "d = CHR ''}''" | (quote) "d = CHR 0x22"
          | (other) "d \<noteq> CHR ''}''" "d \<noteq> CHR 0x22"
          by blast
        then show ?thesis
        proof cases
          case close
          have d: "dec_value lim n s = Inr (JObj [], ds)"
            by (subst dec_value.simps) (simp add: \<open>s = c # cs\<close> obj False sk close)
          have p: "parse_value s = Some (JObj [], ds)"
            by (subst parse_value.simps) (simp add: \<open>s = c # cs\<close> obj sk close)
          show ?thesis unfolding d p by (simp add: agrees_simps)
        next
          case quote
          have d: "dec_value lim n s =
              (case dec_members lim (n - 1) ds of
                 Inl e \<Rightarrow> Inl e
               | Inr (pairs, r) \<Rightarrow> Inr (JObj (py_dict pairs), r))"
            by (subst dec_value.simps) (simp add: \<open>s = c # cs\<close> obj False sk quote)
          have p: "parse_value s =
              (case parse_members ds of
                 None \<Rightarrow> None
               | Some (pairs, r) \<Rightarrow> Some (JObj (py_dict pairs), r))"
            by (subst parse_value.simps) (simp add: \<open>s = c # cs\<close> obj sk quote)
          show ?thesis unfolding d p
            by (rule agrees_bind [OF members [OF len]]) (auto simp: agrees_simps)
        next
          case other
          have d: "dec_value lim n s = Inl JSONDecodeError"
            by (subst dec_value.simps) (simp add: \<open>s = c # cs\<close> obj False sk other)
          have p: "parse_value s = None"
            by (subst parse_value.simps) (simp add: \<open>s = c # cs\<close> obj sk other)
          show ?thesis unfolding d p by (simp add: agrees_simps)
        qed
      qed
    qed
  next
    case arr
    show ?thesis
    proof (cases "n = 0")
      case True
      have "dec_value lim n s = Inl RecursionError"
        by (subst dec_value.simps) (simp add: Cons arr True)
      then show ?thesis by (simp add: agrees_simps)
    next
      case False
      show ?thesis
      proof (cases "skip_ws cs")
        case Nil
        have d: "dec_value lim n s = Inl JSONDecodeError"
          by (subst dec_value.simps) (simp add: Cons arr False Nil)
        have p: "parse_value s = None"
          by (subst parse_value.simps) (simp add: Cons arr Nil)
        show ?thesis unfolding d p by (simp add: agrees_simps)
      next
        case (Cons d ds)
        note sk = Cons
        have len: "length (d # ds) < length s"
          using skip_ws_length [of cs] sk \<open>s = c # cs\<close> by simp
        show ?thesis
        proof (cases "d = CHR '']''")
          case True
          have d: "dec_value lim n s = Inr (JArr [], ds)"
            by (subst dec_value.simps) (simp add: \<open>s = c # cs\<close> arr False sk True)
          have p: "parse_value s = Some (JArr [], ds)"
            by (subst parse_value.simps) (simp add: \<open>s = c # cs\<close> arr sk True)
          show ?thesis unfolding d p by (simp add: agrees_simps)
        next
          case nc: False
          have d: "dec_value lim n s =
              (case dec_elements lim (n - 1) (d # ds) of
                 Inl e \<Rightarrow> Inl e
               | Inr (vs, r) \<Rightarrow> Inr (JArr vs, r))"
            by (subst dec_value.simps) (simp add: \<open>s = c # cs\<close> arr False sk nc)
          have p: "parse_value s =
              (case parse_elements (d # ds) of
                 None \<Rightarrow> None
               | Some (vs, r) \<Rightarrow> Some (JArr vs, r))"
            by (subst parse_value.simps) (simp add: \<open>s = c # cs\<close> arr sk nc)
          show ?thesis unfolding d p
            by (rule agrees_bind [OF elements [OF len]]) (auto simp: agrees_simps)
        qed
      qed
    qed
  next
    case lit
    have d: "dec_value lim n s = dec_literal lim s"
      by (subst dec_value.simps) (simp add: Cons lit)
    have p: "parse_value s = scan_literal s"
      by (subst parse_value.simps) (simp add: Cons lit)
    show ?thesis unfolding d p by (rule agrees_literal)
  qed
qed

lemma agrees_Inr: "agrees x p \<Longrightarrow> x = Inr a \<Longrightarrow> p = Some a"
  by (cases p) (auto simp: agrees_def)

lemma agrees_decode_error: "agrees x p \<Longrightarrow> x = Inl JSONDecodeError \<Longrightarrow> p = None"
  by (cases p) (auto simp: agrees_def)

lemma agrees_Inl: "agrees x p \<Longrightarrow> x = Inl e \<Longrightarrow> e = JSONDecodeError \<or> e = RecursionError \<or> e = ValueError"
  by (cases p) (auto simp: agrees_def)

lemma agrees_elements:
  assumes v: "agrees (dec_value lim n s) (parse_value s)"
    and rec: "\<And>t. length t < length s \<Longrightarrow> agrees (dec_elements lim n t) (parse_elements t)"
  shows "agrees (dec_elements lim n s) (parse_elements s)"
proof (cases "dec_value lim n s")
  case (Inl e)
  have d: "dec_elements lim n s = Inl e"
    by (subst dec_elements.simps) (simp add: Inl)
  show ?thesis
  proof (cases "e = JSONDecodeError")
    case True
    with agrees_decode_error [OF v] Inl have "parse_value s = None" by simp
    then have "parse_elements s = None"
      by (subst parse_elements.simps) simp
    with d True show ?thesis by (simp add: agrees_simps)
  next
    case False
    with agrees_Inl [OF v Inl] have "e = RecursionError \<or> e = ValueError"
      by simp
    with d show ?thesis by (auto simp: agrees_simps)
  qed
next
  case (Inr a)
  obtain x r where a: "a = (x, r)" by (cases a)
  have pv: "parse_value s = Some (x, r)"
    using agrees_Inr [OF v Inr] a by simp
  show ?thesis
  proof (cases "length r < length s")
    case False
    have d: "dec_elements lim n s = Inl JSONDecodeError"
      by (subst dec_elements.simps) (simp add: Inr a False)
    have p: "parse_elements s = None"
      by (subst parse_elements.simps) (simp add: pv False)
    show ?thesis unfolding d p by (simp add: agrees_simps)
  next
    case True
    show ?thesis
    proof (cases "skip_ws r")
      case Nil
      have d: "dec_elements lim n s = Inl JSONDecodeError"
        by (subst dec_elements.simps) (simp add: Inr a True Nil)
      have p: "parse_elements s = None"
        by (subst parse_elements.simps) (simp add: pv True Nil)
      show ?thesis unfolding d p by (simp add: agrees_simps)
    next
      case (Cons d ds)
      note sk = Cons
      have len: "length (skip_ws ds) < length s"
        using skip_ws_Cons [OF sk] skip_ws_length [of ds] True by simp
      consider (close) "d = CHR '']''" | (comma) "d \<noteq> CHR '']''" "d = CHR '',''"
        | (other) "d \<noteq> CHR '']''" "d \<noteq> CHR '',''"
        by blast
      then show ?thesis
      proof cases
        case close
        have d: "dec_elements lim n s = Inr ([x], ds)"
          by (subst dec_elements.simps) (simp add: Inr a True sk close)
        have p: "parse_elements s = Some ([x], ds)"
          by (subst parse_elements.simps) (simp add: pv True sk close)
        show ?thesis unfolding d p by (simp add: agrees_simps)
      next
        case comma
        have d: "dec_elements lim n s =
            (case dec_elements lim n (skip_ws ds) of
               Inl e \<Rightarrow> Inl e
             | Inr (vs, r') \<Rightarrow> Inr (x # vs, r'))"
          by (subst dec_elements.simps) (simp add: Inr a True sk comma)
        have p: "parse_elements s =
            (case parse_elements (skip_ws ds) of
               None \<Rightarrow> None
             | Some (vs, r') \<Rightarrow> Some (x # vs, r'))"
          by (subst parse_elements.simps) (simp add: pv True sk comma)
        show ?thesis unfolding d p
          by (rule agrees_bind [OF rec [OF len]]) (auto simp: agrees_simps)
      next
        case other
        have d: "dec_elements lim n s = Inl JSONDecodeError"
          by (subst dec_elements.simps) (simp add: Inr a True sk other)
        have p: "parse_elements s = None"
          by (subst parse_elements.simps) (simp add: pv True sk other)
        show ?thesis unfolding d p by (simp add: agrees_simps)
      qed
    qed
  qed
qed

lemma agrees_members:
  assumes v: "\<And>t. length t < length s \<Longrightarrow> agrees (dec_value lim n t) (parse_value t)"
    and rec: "\<And>t. length t < length s \<Longrightarrow> agrees (dec_members lim n t) (parse_members t)"
  shows "agrees (dec_members lim n s) (parse_members s)"
proof (cases "scanstring s")
  case None
  have d: "dec_members lim n s = Inl JSONDecodeError"
    by (subst dec_members.simps) (simp add: None)
  have p: "parse_members s = None"
    by (subst parse_members.simps) (simp add: None)
  show ?thesis unfolding d p by (simp add: agrees_simps)
next
  case (Some kr)
  obtain key r where kr: "kr = (key, r)" by (cases kr)
  have sc: "scanstring s = Some (key, r)" using Some kr by simp
  have lr: "length r < length s" using sc by (rule scanstring_length)
  have fail: "agrees (dec_members lim n s) (parse_members s)"
    if "dec_members lim n s = Inl JSONDecodeError" "parse_members s = None"
    using that by (simp add: agrees_simps)
  show ?thesis
  proof (cases "skip_ws r")
    case Nil
    show ?thesis
      by (rule fail; subst dec_members.simps parse_members.simps) (simp_all add: sc Nil)
  next
    case (Cons c cs)
    note sk = Cons
    show ?thesis
    proof (cases "c = CHR '':''")
      case False
      show ?thesis
        by (rule fail; subst dec_members.simps parse_members.simps) (simp_all add: sc sk False)
    next
      case colon: True
      have lv: "length (skip_ws cs) < length s"
        using skip_ws_Cons [OF sk] skip_ws_length [of cs] lr by simp
      note av = v [OF lv]
      show ?thesis
      proof (cases "dec_value lim n (skip_ws cs)")
        case (Inl e)
        have d: "dec_members lim n s = Inl e"
          by (subst dec_members.simps) (simp add: sc sk colon Inl)
        show ?thesis
        proof (cases "e = JSONDecodeError")
          case True
          with agrees_decode_error [OF av] Inl have "parse_value (skip_ws cs) = None" by simp
          then have "parse_members s = None"
            by (subst parse_members.simps) (simp add: sc sk colon)
          with d True show ?thesis by (simp add: agrees_simps)
        next
          case False
          with agrees_Inl [OF av Inl] have "e = RecursionError \<or> e = ValueError"
            by simp
          with d show ?thesis by (auto simp: agrees_simps)
        qed
      next
        case (Inr a)
        obtain x r1 where a: "a = (x, r1)" by (cases a)
        have pv: "parse_value (skip_ws cs) = Some (x, r1)"
          using agrees_Inr [OF av Inr] a by simp
        show ?thesis
        proof (cases "length r1 < length s")
          case False
          show ?thesis
            by (rule fail; subst dec_members.simps parse_members.simps)
               (simp_all add: sc sk colon Inr a pv False)
        next
          case True
          show ?thesis
          proof (cases "skip_ws r1")
            case Nil
            show ?thesis
              by (rule fail; subst dec_members.simps parse_members.simps)
                 (simp_all add: sc sk colon Inr a pv True Nil)
          next
            case (Cons d ds)
            note sk1 = Cons
            consider (close) "d = CHR ''}''" | (comma) "d \<noteq> CHR ''}''" "d = CHR '',''"
              | (other) "d \<noteq> CHR ''}''" "d \<noteq> CHR '',''"
              by blast
            then show ?thesis
            proof cases
              case close
              have d: "dec_members lim n s = Inr ([(key, x)], ds)"
                by (subst dec_members.simps) (simp add: sc sk colon Inr a True sk1 close)
              have p: "parse_members s = Some ([(key, x)], ds)"
                by (subst parse_members.simps) (simp add: sc sk colon pv True sk1 close)
              show ?thesis unfolding d p by (simp add: agrees_simps)
            next
              case other
              show ?thesis
                by (rule fail; subst dec_members.simps parse_members.simps)
                   (simp_all add: sc sk colon Inr a pv True sk1 other)
            next
              case comma
              show ?thesis
              proof (cases "skip_ws ds")
                case Nil
                show ?thesis
                  by (rule fail; subst dec_members.simps parse_members.simps)
                     (simp_all add: sc sk colon Inr a pv True sk1 comma Nil)
              next
                case (Cons e es)
                note sk2 = Cons
                show ?thesis
                proof (cases "e = CHR 0x22")
                  case False
                  show ?thesis
                    by (rule fail; subst dec_members.simps parse_members.simps)
                       (simp_all add: sc sk colon Inr a pv True sk1 comma sk2 False)
                next
                  case quote: True
                  have len: "length es < length s"
                    using skip_ws_Cons [OF sk2] skip_ws_Cons [OF sk1] True by simp
                  have d: "dec_members lim n s =
                      (case dec_members lim n es of
                         Inl x \<Rightarrow> Inl x
                       | Inr (pairs, r') \<Rightarrow> Inr ((key, x) # pairs, r'))"
                    by (subst dec_members.simps)
                       (simp add: sc sk colon Inr a True sk1 comma sk2 quote)
                  have p: "parse_members s =
                      (case parse_members es of
                         None \<Rightarrow> None
                       | Some (pairs, r') \<Rightarrow> Some ((key, x) # pairs, r'))"
                    by (subst parse_members.simps)
                       (simp add: sc sk colon pv True sk1 comma sk2 quote)
                  show ?thesis unfolding d p
                    by (rule agrees_bind [OF rec [OF len]]) (auto simp: agrees_simps)
                qed
              qed
            qed
          qed
        qed
      qed
    qed
  qed
qed

lemma dec_agrees_aux:
  "length s = k \<Longrightarrow>
     (\<forall>n. agrees (dec_value lim n s) (parse_value s))
     \<and> (\<forall>n. agrees (dec_elements lim n s) (parse_elements s))
     \<and> (\<forall>n. agrees (dec_members lim n s) (parse_members s))"
proof (induction k arbitrary: s rule: less_induct)
  case (less k)
  have ih: "agrees (dec_value lim n t) (parse_value t)"
      "agrees (dec_elements lim n t) (parse_elements t)"
      "agrees (dec_members lim n t) (parse_members t)"
    if "length t < length s" for t n
    using less.IH [of "length t" t] that less.prems by blast+
  have v: "agrees (dec_value lim n s) (parse_value s)" for n
    by (rule agrees_value) (rule ih, assumption)+
  have e: "agrees (dec_elements lim n s) (parse_elements s)" for n
    by (rule agrees_elements [OF v]) (rule ih, assumption)
  have m: "agrees (dec_members lim n s) (parse_members s)" for n
    by (rule agrees_members) (rule ih, assumption)+
  from v e m show ?case by blast
qed

lemma dec_value_agrees: "agrees (dec_value lim n s) (parse_value s)"
  using dec_agrees_aux [of s "length s" lim] by blast

lemma loads_agrees: "agrees (loads lim s) (json_loads s)"
proof -
  have "agrees (case dec_value lim (max_depth lim) (skip_ws s) of
                  Inl e \<Rightarrow> Inl e
                | Inr (v, r) \<Rightarrow> if skip_ws r = [] then Inr v else Inl JSONDecodeError)
               (case parse_value (skip_ws s) of
                  None \<Rightarrow> None
                | Some (v, r) \<Rightarrow> if skip_ws r = [] then Some v else None)"
    by (rule agrees_bind [OF dec_value_agrees]) (auto simp: agrees_simps)
  then show ?thesis by (simp add: loads_def json_loads_def)
qed

lemma loads_cases:
  obtains (limit) e where "loads lim s = Inl e" "e = RecursionError \<or> e = ValueError"
  | (decode_error) "loads lim s = Inl JSONDecodeError" "json_loads s = None"
  | (parsed) v where "loads lim s = Inr v" "json_loads s = Some v"
proof (cases "loads lim s")
  case (Inl e)
  with agrees_Inl [OF loads_agrees Inl] agrees_decode_error [OF loads_agrees, of lim s]
  show ?thesis using limit decode_error by blast
next
  case (Inr v)
  with agrees_Inr [OF loads_agrees Inr] show ?thesis using parsed by blast
qed

lemma extraction_within_limits:
  assumes "loads lim (json_string raw) \<noteq> Inl RecursionError"
    and "loads lim (json_string raw) \<noteq> Inl ValueError"
  shows "extraction lim raw = extract_graph raw"
    and "show_run lim raw code_explanation = show_result raw code_explanation"
proof -
  show e: "extraction lim raw = extract_graph raw"
  proof (cases lim "json_string raw" rule: loads_cases)
    case (limit e)
    with assms show ?thesis by auto
  next
    case decode_error
    then show ?thesis by (simp add: extraction_def extract_graph_def)
  next
    case (parsed v)
    then show ?thesis by (simp add: extraction_def extract_graph_def)
  qed
  show "show_run lim raw code_explanation = show_result raw code_explanation"
    by (simp add: show_run_def show_result_def e)
qed

lemma loads_JObj:
  assumes "loads lim t = Inr (JObj d)"
  shows "CHR ''{'' \<in> set t"
proof -
  have "json_loads t = Some (JObj d)"
    using agrees_Inr [OF loads_agrees assms] .
  then show ?thesis by (rule json_loads_JObj)
qed

text \<open>
  Whenever the decoder returns a value, and whenever extraction ends otherwise than by
  one of the two exceptions of the limits, extraction and the run are those of the
  grammar: what is shown below of \<open>extract_graph\<close> and \<open>show_result\<close> holds of
  \<open>extraction\<close> and \<open>show_run\<close> in these runs.
\<close>

lemma loads_returns:
  assumes "loads lim (json_string raw) = Inr v"
  shows "json_loads (json_string raw) = Some v"
    and "extraction lim raw = extract_graph raw"
    and "show_run lim raw code_explanation = show_result raw code_explanation"
proof -
  show "json_loads (json_string raw) = Some v"
    using agrees_Inr [OF loads_agrees assms] .
  from assms show "extraction lim raw = extract_graph raw"
    by (intro extraction_within_limits(1)) simp_all
  from assms show "show_run lim raw code_explanation = show_result raw code_explanation"
    by (intro extraction_within_limits(2)) simp_all
qed

lemma extraction_returns:
  assumes "extraction lim raw = Inr graph_data"
  shows "extract_graph raw = Inr graph_data"
    and "show_run lim raw code_explanation = show_result raw code_explanation"
proof -
  from assms have "loads lim (json_string raw) = Inr graph_data"
    by (auto simp: extraction_def split: sum.splits bool.splits if_splits)
  from loads_returns(2,3) [OF this] assms
  show "extract_graph raw = Inr graph_data"
    and "show_run lim raw code_explanation = show_result raw code_explanation"
    by simp_all
qed

lemma extraction_agrees:
  "extraction lim raw = Inl (Raised RecursionError)
   \<or> extraction lim raw = Inl (Raised ValueError)
   \<or> extraction lim raw = extract_graph raw
      \<and> show_run lim raw code_explanation = show_result raw code_explanation"
proof (cases lim "json_string raw" rule: loads_cases)
  case (limit e)
  then show ?thesis by (auto simp: extraction_def)
next
  case decode_error
  then show ?thesis using extraction_within_limits [of lim raw] by simp
next
  case (parsed v)
  then show ?thesis using loads_returns(2,3) by blast
qed

section \<open>Properties of the candidate\<close>

lemma json_string_cases:
  "json_string raw = raw \<or> (\<exists>mid. json_string raw = CHR ''{'' # mid @ [CHR ''}''])"
proof (cases "str_find raw CHR ''{'' \<noteq> - 1 \<and> str_rfind raw CHR ''}'' \<noteq> - 1
    \<and> str_rfind raw CHR ''}'' > str_find raw CHR ''{''")
  case False
  then show ?thesis by (auto simp: json_string_def Let_def)
next
  case True
  then have "CHR ''{'' \<in> set raw" and "CHR ''}'' \<in> set raw"
    by (simp_all add: str_find_absent str_rfind_absent)
  then obtain pre rest where raw1: "raw = pre @ CHR ''{'' # rest" and pre: "CHR ''{'' \<notin> set pre"
    by (meson split_list_first)
  from \<open>CHR ''}'' \<in> set raw\<close> obtain a post where raw2: "raw = a @ CHR ''}'' # post"
    and post: "CHR ''}'' \<notin> set post"
    by (meson split_list_last)
  have f: "str_find raw CHR ''{'' = int (length pre)"
    unfolding raw1 using pre by (rule str_find_first)
  have r: "str_rfind raw CHR ''}'' = int (length a)"
    unfolding raw2 using post by (rule str_rfind_last)
  from True f r have lt: "length pre < length a" by simp
  from raw1 raw2 have "pre @ CHR ''{'' # rest = a @ CHR ''}'' # post" by simp
  then obtain us where "pre @ us = a \<and> CHR ''{'' # rest = us @ CHR ''}'' # post
      \<or> pre = a @ us \<and> us @ CHR ''{'' # rest = CHR ''}'' # post"
    by (auto simp: append_eq_append_conv2)
  with lt have us: "pre @ us = a" "CHR ''{'' # rest = us @ CHR ''}'' # post" by auto
  from lt us(1) have "us \<noteq> []" by auto
  with us(2) obtain mid where "us = CHR ''{'' # mid" and "rest = mid @ CHR ''}'' # post"
    by (cases us) auto
  with raw1 have "raw = pre @ CHR ''{'' # mid @ CHR ''}'' # post" by simp
  then have "json_string raw = CHR ''{'' # mid @ [CHR ''}'']"
    using json_string_between [OF pre post, of mid] by simp
  then show ?thesis by blast
qed

section \<open>Claims about extraction\<close>

lemma skip_ws_bracket: "skip_ws (CHR ''['' # t) = CHR ''['' # t"
  by (simp add: skip_ws_def is_ws_def)

lemma dec_value_nesting:
  "dec_value lim n (replicate (Suc n) (CHR ''['') @ rest) = Inl RecursionError"
proof (induction n)
  case 0
  show ?case by (subst dec_value.simps) simp
next
  case (Suc n)
  from Suc.IH have ih:
    "dec_value lim n (CHR ''['' # replicate n (CHR ''['') @ rest) = Inl RecursionError"
    by simp
  have e: "dec_elements lim n (CHR ''['' # replicate n (CHR ''['') @ rest) = Inl RecursionError"
    by (subst dec_elements.simps) (simp add: ih)
  show ?case
    by (subst dec_value.simps) (simp add: skip_ws_bracket e)
qed

lemma parse_value_nesting: "parse_value (replicate (Suc n) (CHR ''['')) = None"
proof (induction n)
  case 0
  show ?case by (subst parse_value.simps) (simp add: skip_ws_def)
next
  case (Suc n)
  from Suc.IH have ih: "parse_value (CHR ''['' # replicate n (CHR ''['')) = None"
    by simp
  have e: "parse_elements (CHR ''['' # replicate n (CHR ''['')) = None"
    by (subst parse_elements.simps) (simp add: ih)
  show ?case
    by (subst parse_value.simps) (simp add: skip_ws_bracket e)
qed

lemma loads_nesting:
  "loads lim (replicate (Suc (max_depth lim)) (CHR ''['')) = Inl RecursionError"
  using dec_value_nesting [of lim "max_depth lim" "[]"]
  by (simp add: loads_def skip_ws_bracket)

lemma json_loads_nesting: "json_loads (replicate (Suc n) (CHR ''['')) = None"
  using parse_value_nesting [of n] by (simp add: json_loads_def skip_ws_bracket)

text \<open>
  C4, as the code has it. Whenever the strict parsing of the candidate fails with a JSON
  decode error, extraction fails with MalformedOutput carrying the raw completion text
  unchanged; the run shows the invalid JSON message followed by that raw text and nothing
  else, so no diagram is rendered. The outcome depends on the text only through the
  parser's verdict on the candidate: nothing beyond the brace slicing is tried.
\<close>

theorem malformed_output:
  assumes "loads lim (json_string raw) = Inl JSONDecodeError"
  shows "extraction lim raw = Inl (MalformedOutput raw)
         \<and> show_run lim raw code_explanation = [St_error Invalid_json, St_code raw]"
  using assms by (simp add: extraction_def show_run_def)

theorem malformed_output_witness:
  \<open>loads cpython_limits (json_string ''Sorry, {no json} here'') = Inl JSONDecodeError
   \<and> extraction cpython_limits ''Sorry, {no json} here''
       = Inl (MalformedOutput ''Sorry, {no json} here'')
   \<and> show_run cpython_limits ''Sorry, {no json} here'' ''text''
       = [St_error Invalid_json, St_code ''Sorry, {no json} here'']\<close>
proof -
  have h: \<open>loads cpython_limits (json_string ''Sorry, {no json} here'') = Inl JSONDecodeError\<close>
    by code_simp
  from h malformed_output [OF h, of "''text''"] show ?thesis by simp
qed

text \<open>
  The handler of line 219 catches \<^verbatim>\<open>json.JSONDecodeError\<close> only. A completion of 1001
  opening brackets is not a JSON document, and its parsing fails; but it fails with
  \<^verbatim>\<open>RecursionError\<close> under the default limits, so extraction does not fail with
  MalformedOutput: the run shows the generic message of line 316, without the raw text.
\<close>

theorem malformed_output_counterexample:
  \<open>json_loads (json_string (replicate 1001 (CHR ''[''))) = None
   \<and> loads cpython_limits (json_string (replicate 1001 (CHR ''[''))) = Inl RecursionError
   \<and> extraction cpython_limits (replicate 1001 (CHR ''['')) = Inl (Raised RecursionError)
   \<and> extraction cpython_limits (replicate 1001 (CHR ''[''))
       \<noteq> Inl (MalformedOutput (replicate 1001 (CHR ''['')))
   \<and> show_run cpython_limits (replicate 1001 (CHR ''['')) ''text''
       = [St_error (Generation_failed RecursionError)]\<close>
proof -
  let ?raw = "replicate 1001 (CHR ''['')"
  have n: "(1001 :: nat) = Suc (max_depth cpython_limits)"
    by (simp add: cpython_limits_def)
  have c: "json_string ?raw = ?raw" by (simp add: json_string_absent)
  have j: "json_loads ?raw = None"
    unfolding n by (rule json_loads_nesting)
  have l: "loads cpython_limits ?raw = Inl RecursionError"
    unfolding n by (rule loads_nesting)
  from c j l show ?thesis by (simp add: extraction_def show_run_def)
qed



lemma candidate_object:
  assumes "json_string raw \<noteq> raw" and "json_loads (json_string raw) = Some v"
  shows "\<exists>d. v = JObj d"
proof -
  from assms(1) obtain mid where "json_string raw = CHR ''{'' # mid @ [CHR ''}'']"
    using json_string_cases [of raw] by blast
  with assms(2) show ?thesis using json_loads_brace by simp
qed




lemma render_not_object:
  assumes "\<forall>d. graph_data \<noteq> JObj d"
  shows "render graph_data = Inl TypeError"
  using assms by (cases graph_data) (simp_all add: render_def)

lemma show_result_not_object:
  assumes "\<forall>d. json_loads (json_string raw) \<noteq> Some (JObj d)"
  shows "\<forall>dot. St_graphviz_chart dot \<notin> set (show_result raw code_explanation)"
proof (cases "extract_graph raw")
  case (Inl e)
  then show ?thesis by (cases e) (simp_all add: show_result_def)
next
  case (Inr graph_data)
  then have "json_loads (json_string raw) = Some graph_data"
    by (auto simp: extract_graph_def split: option.splits sum.splits bool.splits)
  with assms have "\<forall>d. graph_data \<noteq> JObj d" by auto
  then have "render graph_data = Inl TypeError" by (rule render_not_object)
  with Inr show ?thesis by (simp add: show_result_def)
qed

lemma show_run_not_object:
  assumes "\<forall>d. loads lim (json_string raw) \<noteq> Inr (JObj d)"
  shows "\<forall>dot. St_graphviz_chart dot \<notin> set (show_run lim raw code_explanation)"
proof (cases "extraction lim raw")
  case (Inl e)
  then show ?thesis by (cases e) (simp_all add: show_run_def)
next
  case (Inr graph_data)
  then have "loads lim (json_string raw) = Inr graph_data"
    by (auto simp: extraction_def split: sum.splits bool.splits if_splits)
  with assms have "\<forall>d. graph_data \<noteq> JObj d" by auto
  then have "render graph_data = Inl TypeError" by (rule render_not_object)
  with Inr show ?thesis by (simp add: show_run_def)
qed

lemma loads_decode_error:
  "loads lim s = Inl JSONDecodeError \<longleftrightarrow>
     json_loads s = None \<and> loads lim s \<noteq> Inl RecursionError \<and> loads lim s \<noteq> Inl ValueError"
  by (cases lim s rule: loads_cases) auto

text \<open>
  C3, as the code has it. For every raw completion text that contains no opening and no
  closing brace, the candidate is the entire text, and extraction fails with
  MalformedOutput exactly when the parser rejects that text with a JSON decode error,
  that is, when the text is not valid JSON and the parser reaches no limit of the
  interpreter on it. A text without braces never parses to an object, and in no case is a
  diagram rendered.
\<close>

theorem no_braces:
  assumes "CHR ''{'' \<notin> set raw" and "CHR ''}'' \<notin> set raw"
  shows "json_string raw = raw
         \<and> (extraction lim raw = Inl (MalformedOutput raw) \<longleftrightarrow>
              loads lim raw = Inl JSONDecodeError)
         \<and> (loads lim raw = Inl JSONDecodeError \<longleftrightarrow>
              json_loads raw = None \<and> loads lim raw \<noteq> Inl RecursionError
              \<and> loads lim raw \<noteq> Inl ValueError)
         \<and> (\<forall>d. loads lim raw \<noteq> Inr (JObj d))
         \<and> (\<forall>dot. St_graphviz_chart dot \<notin> set (show_run lim raw code_explanation))"
proof -
  have c: "json_string raw = raw" using assms(1) by (simp add: json_string_absent)
  have o: "\<forall>d. loads lim raw \<noteq> Inr (JObj d)"
    using assms(1) loads_JObj by blast
  have m: "extraction lim raw = Inl (MalformedOutput raw) \<longleftrightarrow> loads lim raw = Inl JSONDecodeError"
    by (auto simp: extraction_def c split: sum.splits bool.splits)
  from o c have "\<forall>d. loads lim (json_string raw) \<noteq> Inr (JObj d)" by simp
  then have "\<forall>dot. St_graphviz_chart dot \<notin> set (show_run lim raw code_explanation)"
    by (rule show_run_not_object)
  with c o m loads_decode_error [of lim raw] show ?thesis by blast
qed

theorem no_braces_witness:
  \<open>CHR ''{'' \<notin> set ''I cannot help'' \<and> CHR ''}'' \<notin> set ''I cannot help''
   \<and> json_loads ''I cannot help'' = None
   \<and> loads cpython_limits ''I cannot help'' = Inl JSONDecodeError
   \<and> extraction cpython_limits ''I cannot help'' = Inl (MalformedOutput ''I cannot help'')\<close>
proof -
  have a: \<open>CHR ''{'' \<notin> set ''I cannot help''\<close> and b: \<open>CHR ''}'' \<notin> set ''I cannot help''\<close>
    by simp_all
  have n: \<open>loads cpython_limits ''I cannot help'' = Inl JSONDecodeError\<close> by code_simp
  from a b n no_braces [OF a b, of cpython_limits "[]"] show ?thesis by simp
qed

text \<open>
  The raw text \<^verbatim>\<open>[]\<close> contains no brace and is valid JSON: extraction fails with
  MissingField, not with MalformedOutput.
\<close>

theorem no_braces_counterexample:
  \<open>CHR ''{'' \<notin> set ''[]'' \<and> CHR ''}'' \<notin> set ''[]''
   \<and> extraction cpython_limits ''[]'' = Inl (MissingField ''[]'')
   \<and> extraction cpython_limits ''[]'' \<noteq> Inl (MalformedOutput ''[]'')\<close>
  by code_simp

section \<open>Claims about the button\<close>

lemma whitespace_prefix_free:
  "list_all (\<lambda>w. w \<noteq> [] \<and> list_all (\<lambda>w'. starts_with w w' \<or> starts_with w' w \<longrightarrow> w = w')
      whitespace) whitespace"
  by code_simp

lemma starts_with_append:
  "starts_with k (w @ t) \<Longrightarrow> starts_with k w \<or> starts_with w k"
  by (induction k w rule: starts_with.induct) auto

lemma starts_with_self: "starts_with w (w @ t)"
  by (induction w) auto

lemma space_at_start_whitespace:
  assumes "w \<in> set whitespace"
  shows "space_at_start whitespace (w @ t) = Some w"
proof -
  let ?P = "\<lambda>x. x \<noteq> [] \<and> starts_with x (w @ t)"
  from assms whitespace_prefix_free have ne: "w \<noteq> []"
    and pf: "\<And>w'. w' \<in> set whitespace \<Longrightarrow> starts_with w w' \<or> starts_with w' w \<Longrightarrow> w = w'"
    by (auto simp: list_all_iff)
  have "?P w" using ne starts_with_self by simp
  with assms have "List.find ?P whitespace \<noteq> None"
    by (auto simp: find_None_iff)
  then obtain w' where f: "List.find ?P whitespace = Some w'" by auto
  then have "?P w'" and "w' \<in> set whitespace"
    by (auto simp: find_Some_iff)
  then have "w = w'" using pf starts_with_append by blast
  with f show ?thesis by (simp add: space_at_start_def)
qed

lemma lstrip_Nil: "lstrip ws [] = []"
proof (cases "space_at_start ws []")
  case None
  then show ?thesis by (simp add: lstrip.simps)
next
  case (Some w)
  then have "w \<noteq> []" "starts_with w []"
    by (auto simp: space_at_start_def find_Some_iff)
  then show ?thesis by (cases w) auto
qed

lemma lstrip_whitespace:
  assumes "set chars \<subseteq> set whitespace"
  shows "lstrip whitespace (concat chars) = []"
  using assms
proof (induction chars)
  case Nil
  show ?case by (simp add: lstrip_Nil)
next
  case (Cons w chars)
  then have w: "w \<in> set whitespace" and rest: "set chars \<subseteq> set whitespace" by simp_all
  have "space_at_start whitespace (w @ concat chars) = Some w"
    using w by (rule space_at_start_whitespace)
  then have "lstrip whitespace (w @ concat chars) = lstrip whitespace (concat chars)"
    by (subst lstrip.simps) simp
  with Cons.IH [OF rest] show ?case by simp
qed

lemma strip_whitespace:
  assumes "set chars \<subseteq> set whitespace"
  shows "strip (concat chars) = []"
  using lstrip_whitespace [OF assms] by (simp add: strip_def lstrip_Nil)

text \<open>
  C10. When the generate action runs on a code input that is empty or consists only of
  whitespace characters (those of \<^verbatim>\<open>str.isspace\<close>, inside and outside ASCII), the run
  shows the warning that asks for code and nothing else, and it makes no call of the
  completion service; hence no extraction and no rendering either.
\<close>

theorem empty_input_guard:
  assumes "set chars \<subseteq> set whitespace"
  shows "on_generate lim client model_choice (concat chars)
           = \<lparr>calls = [], shown = [St_warning Paste_code_first]\<rparr>"
  using strip_whitespace [OF assms] by (simp add: on_generate_def)

theorem empty_input_guard_witness:
  \<open>calls (on_generate cpython_limits (\<lambda>r. Inr ''{}'') ''some/model'' [CHR 0x20, CHR 0xC2, CHR 0xA0, CHR 0x0A]) = []
   \<and> shown (on_generate cpython_limits (\<lambda>r. Inr ''{}'') ''some/model'' [CHR 0x20, CHR 0xC2, CHR 0xA0, CHR 0x0A])
       = [St_warning Paste_code_first]
   \<and> calls (on_generate cpython_limits (\<lambda>r. Inr ''{}'') ''some/model'' []) = []\<close>
proof -
  have h: \<open>set [[CHR 0x20], [CHR 0xC2, CHR 0xA0], [CHR 0x0A]] \<subseteq> set whitespace\<close>
    by (simp add: whitespace_def)
  have e: \<open>set ([] :: string list) \<subseteq> set whitespace\<close> by simp
  from empty_input_guard [OF h, of cpython_limits "\<lambda>r. Inr ''{}''" "''some/model''"]
    empty_input_guard [OF e, of cpython_limits "\<lambda>r. Inr ''{}''" "''some/model''"]
  show ?thesis by simp
qed

text \<open>
  On any other code input, when the two calls of the completion service return, the run
  shows what extraction and rendering make of the stripped flowchart completion.
\<close>

lemma on_generate_completed:
  assumes "strip code_input \<noteq> []"
    and "client (Flowchart_request model_choice code_input) = Inr flowchart_content"
    and "client (Explanation_request model_choice code_input) = Inr explanation_content"
  shows "on_generate lim client model_choice code_input =
           \<lparr>calls = [Flowchart_request model_choice code_input,
                     Explanation_request model_choice code_input],
            shown = show_run lim (strip flowchart_content) (strip explanation_content)\<rparr>"
  using assms by (simp add: on_generate_def Let_def)

section \<open>Claims about rendering\<close>

lemma add_edges_bad_label:
  assumes "JObj d \<in> set es" and "map_of d ''label'' = Some v" and "\<forall>t. v \<noteq> JStr t"
  shows "\<exists>e. add_edges es dot = Inl e"
  using assms(1)
proof (induction es arbitrary: dot)
  case Nil
  then show ?case by simp
next
  case (Cons edge rest)
  show ?case
  proof (cases "edge = JObj d")
    case True
    with assms(2,3) show ?thesis
      by (cases v) (auto split: option.splits sum.splits json.splits)
  next
    case False
    with Cons.prems have "JObj d \<in> set rest" by simp
    then have ih: "\<exists>e. add_edges rest dot' = Inl e" for dot' by (rule Cons.IH)
    show ?thesis
      using ih by (auto split: sum.splits json.splits)
  qed
qed

lemma add_edges_first_bad_label:
  assumes "map_of d ''from'' = Some f" and "map_of d ''to'' = Some t"
    and "map_of d ''label'' = Some v" and "\<forall>l. v \<noteq> JStr l"
  shows "add_edges (JObj d # rest) dot = Inl AttributeError"
  using assms by (cases v) auto

lemma add_nodes_missing_id:
  assumes "JObj d \<in> set ns" and "map_of d ''id'' = None"
  shows "\<exists>e. add_nodes ns dot = Inl e"
  using assms(1)
proof (induction ns arbitrary: dot)
  case Nil
  then show ?case by simp
next
  case (Cons node rest)
  show ?case
  proof (cases "node = JObj d")
    case True
    with assms(2) show ?thesis by simp
  next
    case False
    with Cons.prems have "JObj d \<in> set rest" by simp
    then have ih: "\<exists>e. add_nodes rest dot' = Inl e" for dot' by (rule Cons.IH)
    show ?thesis
      using ih by (auto split: sum.splits json.splits)
  qed
qed

lemma render_object:
  "render (JObj g) =
     (case map_of g ''nodes'' of
        None \<Rightarrow> Inl (KeyError ''nodes'')
      | Some ns \<Rightarrow>
          (case py_iter ns of
             Inl e \<Rightarrow> Inl e
           | Inr nodes \<Rightarrow>
               (case add_nodes nodes [] of
                  Inl e \<Rightarrow> Inl e
                | Inr dot \<Rightarrow>
                    (case map_of g ''edges'' of
                       None \<Rightarrow> Inl (KeyError ''edges'')
                     | Some es \<Rightarrow>
                         (case py_iter es of
                            Inl e \<Rightarrow> Inl e
                          | Inr edges \<Rightarrow> add_edges edges dot)))))"
  by (simp add: render_def split: option.splits sum.splits)

lemma render_bad_label:
  assumes "py_getitem graph_data ''edges'' = Inr (JArr es)"
    and "JObj d \<in> set es" and "map_of d ''label'' = Some v" and "\<forall>t. v \<noteq> JStr t"
  shows "\<exists>e. render graph_data = Inl e"
proof -
  from assms(1) obtain g where g: "graph_data = JObj g" and es: "map_of g ''edges'' = Some (JArr es)"
    by (cases graph_data) (auto split: option.splits)
  have "\<exists>e. add_edges es dot = Inl e" for dot
    using assms(2-4) by (rule add_edges_bad_label)
  then show ?thesis
    unfolding g render_object using es
    by (auto split: option.splits sum.splits)
qed

lemma show_result_render_error:
  assumes "extract_graph raw = Inr graph_data" and "render graph_data = Inl e"
  shows "show_result raw code_explanation = [St_error (Generation_failed e)]"
  using assms by (simp add: show_result_def)

text \<open>
  C9. If an edge object of the parsed graph has a \<^verbatim>\<open>label\<close> key whose value is not a
  string (JSON \<^verbatim>\<open>null\<close>, for instance), rendering raises: the run shows the generic error
  message and nothing else, so the whole generation is lost instead of the edge being
  drawn gray. When the edge has its \<^verbatim>\<open>from\<close> and \<^verbatim>\<open>to\<close> keys, the exception is the
  attribute error of the string operation \<^verbatim>\<open>lower\<close> applied to the label.
\<close>

theorem non_string_edge_label:
  assumes "extract_graph raw = Inr graph_data"
    and "py_getitem graph_data ''edges'' = Inr (JArr es)"
    and "JObj d \<in> set es" and "map_of d ''label'' = Some v" and "\<forall>t. v \<noteq> JStr t"
  shows "(\<exists>e. render graph_data = Inl e
              \<and> show_result raw code_explanation = [St_error (Generation_failed e)])
         \<and> (map_of d ''from'' \<noteq> None \<and> map_of d ''to'' \<noteq> None \<longrightarrow>
              add_edges (JObj d # rest) dot = Inl AttributeError)"
proof -
  from assms(2-5) obtain e where "render graph_data = Inl e"
    using render_bad_label by blast
  with assms(1) have "render graph_data = Inl e
      \<and> show_result raw code_explanation = [St_error (Generation_failed e)]"
    by (simp add: show_result_render_error)
  moreover have "map_of d ''from'' \<noteq> None \<and> map_of d ''to'' \<noteq> None \<longrightarrow>
              add_edges (JObj d # rest) dot = Inl AttributeError"
    using add_edges_first_bad_label [OF _ _ assms(4,5)] by auto
  ultimately show ?thesis by blast
qed

theorem non_string_edge_label_witness:
  \<open>render (JObj [(''nodes'', JArr [JObj [(''id'', JStr ''A''), (''label'', JStr ''Start'')]]),
                 (''edges'', JArr [JObj [(''from'', JStr ''A''), (''to'', JStr ''A''),
                                         (''label'', JNull)]])])
     = Inl AttributeError
   \<and> show_result
       ''{"nodes": [{"id": "A", "label": "Start"}], "edges": [{"from": "A", "to": "A", "label": null}]}''
       ''text''
     = [St_error (Generation_failed AttributeError)]\<close>
proof -
  let ?raw = \<open>''{"nodes": [{"id": "A", "label": "Start"}], "edges": [{"from": "A", "to": "A", "label": null}]}''\<close>
  let ?d = "[(''from'', JStr ''A''), (''to'', JStr ''A''), (''label'', JNull)]"
  let ?g = "JObj [(''nodes'', JArr [JObj [(''id'', JStr ''A''), (''label'', JStr ''Start'')]]),
                  (''edges'', JArr [JObj ?d])]"
  have x: "extract_graph ?raw = Inr ?g" by code_simp
  have a: "py_getitem ?g ''edges'' = Inr (JArr [JObj ?d])" by simp
  have b: "JObj ?d \<in> set [JObj ?d]" by simp
  have c: "map_of ?d ''label'' = Some JNull" by simp
  have n: "\<forall>t. JNull \<noteq> JStr t" by simp
  have r: "render ?g = Inl AttributeError" by code_simp
  from non_string_edge_label [OF x a b c n, of "''text''"] r show ?thesis by auto
qed

lemma add_nodes_well_formed:
  assumes "list_all well_formed_node ns"
  shows "\<exists>dot'. add_nodes ns dot = Inr dot' \<and> length dot' = length dot + length ns"
  using assms
proof (induction ns arbitrary: dot)
  case Nil
  then show ?case by simp
next
  case (Cons node rest)
  then have wf: "well_formed_node node" and rest: "list_all well_formed_node rest" by simp_all
  from wf obtain d i l where node: "node = JObj d" and i: "map_of d ''id'' = Some i"
    and l: "map_of d ''label'' = Some (JStr l)"
    by (cases node) (auto split: option.splits json.splits)
  let ?dot = "dot @ [Node_stmt (N_prefixed i) l (node_style l) l]"
  from Cons.IH [OF rest, of ?dot] obtain dot' where
    "add_nodes rest ?dot = Inr dot'" and "length dot' = length ?dot + length rest"
    by blast
  then show ?case by (simp add: node i l)
qed

lemma add_edges_well_formed:
  assumes "list_all well_formed_edge es"
  shows "\<exists>dot'. add_edges es dot = Inr dot' \<and> length dot' = length dot + length es"
  using assms
proof (induction es arbitrary: dot)
  case Nil
  then show ?case by simp
next
  case (Cons edge rest)
  then have wf: "well_formed_edge edge" and rest: "list_all well_formed_edge rest" by simp_all
  from wf obtain d f t where edge: "edge = JObj d" and f: "map_of d ''from'' = Some f"
    and t: "map_of d ''to'' = Some t"
    and lbl: "map_of d ''label'' = None \<or> (\<exists>l. map_of d ''label'' = Some (JStr l))"
    by (cases edge) (auto split: option.splits json.splits)
  from lbl obtain l where l: "py_get edge ''label'' (JStr []) = Inr (JStr l)"
    by (auto simp: edge)
  let ?dot = "dot @ [Edge_stmt (N_prefixed f) (N_prefixed t) l (edge_color l) ''2.0'']"
  from Cons.IH [OF rest, of ?dot] obtain dot' where
    "add_edges rest ?dot = Inr dot'" and "length dot' = length ?dot + length rest"
    by blast
  then show ?case using l by (simp add: edge f t)
qed

lemma render_well_formed:
  assumes "map_of g ''nodes'' = Some (JArr ns)" and "map_of g ''edges'' = Some (JArr es)"
    and "list_all well_formed_node ns" and "list_all well_formed_edge es"
  shows "\<exists>dot. render (JObj g) = Inr dot \<and> length dot = length ns + length es"
proof -
  from add_nodes_well_formed [OF assms(3), of "[]"] obtain dot1 where
    n: "add_nodes ns [] = Inr dot1" and ln: "length dot1 = length ns" by auto
  from add_edges_well_formed [OF assms(4), of dot1] obtain dot2 where
    e: "add_edges es dot1 = Inr dot2" and le: "length dot2 = length dot1 + length es" by auto
  show ?thesis
    unfolding render_object using assms(1,2) n e ln le by simp
qed

lemma render_missing_id:
  assumes "map_of g ''nodes'' = Some (JArr ns)" and "JObj d \<in> set ns" and "map_of d ''id'' = None"
  shows "\<exists>e. render (JObj g) = Inl e"
proof -
  from add_nodes_missing_id [OF assms(2,3), of "[]"] obtain e where "add_nodes ns [] = Inl e"
    by blast
  then show ?thesis
    unfolding render_object using assms(1) by simp
qed

text \<open>
  C8, as the code has it. For a parsed graph whose \<^verbatim>\<open>nodes\<close> and \<^verbatim>\<open>edges\<close> are lists:
  when every node entry has an \<^verbatim>\<open>id\<close> and a string \<^verbatim>\<open>label\<close> and every edge entry has
  \<^verbatim>\<open>from\<close>, \<^verbatim>\<open>to\<close> and a label that is unset or a string, the render completes with one
  statement for each node and each edge, whether or not the \<^verbatim>\<open>from\<close> and \<^verbatim>\<open>to\<close> of an
  edge are ids of declared nodes: a dangling reference is tolerated. A node entry without
  an \<^verbatim>\<open>id\<close> is not skipped: rendering raises, and the run shows the generic error message
  and no diagram.
\<close>

theorem structural_issues:
  assumes "map_of g ''nodes'' = Some (JArr ns)" and "map_of g ''edges'' = Some (JArr es)"
  shows "(list_all well_formed_node ns \<and> list_all well_formed_edge es \<longrightarrow>
            (\<exists>dot. render (JObj g) = Inr dot \<and> length dot = length ns + length es))
         \<and> (JObj d \<in> set ns \<and> map_of d ''id'' = None \<longrightarrow>
            (\<exists>e. render (JObj g) = Inl e
                 \<and> (extract_graph raw = Inr (JObj g) \<longrightarrow>
                      show_result raw code_explanation = [St_error (Generation_failed e)])))"
proof (intro conjI impI)
  assume "list_all well_formed_node ns \<and> list_all well_formed_edge es"
  then show "\<exists>dot. render (JObj g) = Inr dot \<and> length dot = length ns + length es"
    using render_well_formed [OF assms] by blast
next
  assume "JObj d \<in> set ns \<and> map_of d ''id'' = None"
  then obtain e where "render (JObj g) = Inl e"
    using render_missing_id [OF assms(1)] by blast
  then show "\<exists>e. render (JObj g) = Inl e
                 \<and> (extract_graph raw = Inr (JObj g) \<longrightarrow>
                      show_result raw code_explanation = [St_error (Generation_failed e)])"
    by (auto simp: show_result_render_error)
qed

theorem structural_issues_witness:
  \<open>list_all well_formed_node [JObj [(''id'', JStr ''A''), (''label'', JStr ''Start'')]]
   \<and> list_all well_formed_edge [JObj [(''from'', JStr ''A''), (''to'', JStr ''Z'')]]
   \<and> render (JObj [(''nodes'', JArr [JObj [(''id'', JStr ''A''), (''label'', JStr ''Start'')]]),
                   (''edges'', JArr [JObj [(''from'', JStr ''A''), (''to'', JStr ''Z'')]])])
       = Inr [Node_stmt (N_prefixed (JStr ''A'')) ''Start'' (node_style ''Start'') ''Start'',
              Edge_stmt (N_prefixed (JStr ''A'')) (N_prefixed (JStr ''Z'')) [] ''#666666'' ''2.0'']
   \<and> length [Node_stmt (N_prefixed (JStr ''A'')) ''Start'' (node_style ''Start'') ''Start'',
              Edge_stmt (N_prefixed (JStr ''A'')) (N_prefixed (JStr ''Z'')) [] ''#666666'' ''2.0'']
       = length [JObj [(''id'', JStr ''A''), (''label'', JStr ''Start'')]]
         + length [JObj [(''from'', JStr ''A''), (''to'', JStr ''Z'')]]\<close>
proof -
  let ?ns = "[JObj [(''id'', JStr ''A''), (''label'', JStr ''Start'')]]"
  let ?es = "[JObj [(''from'', JStr ''A''), (''to'', JStr ''Z'')]]"
  let ?g = "[(''nodes'', JArr ?ns), (''edges'', JArr ?es)]"
  have a: "map_of ?g ''nodes'' = Some (JArr ?ns)" by simp
  have b: "map_of ?g ''edges'' = Some (JArr ?es)" by simp
  have wn: "list_all well_formed_node ?ns" by simp
  have we: "list_all well_formed_edge ?es" by simp
  have r: "render (JObj ?g)
       = Inr [Node_stmt (N_prefixed (JStr ''A'')) ''Start'' (node_style ''Start'') ''Start'',
              Edge_stmt (N_prefixed (JStr ''A'')) (N_prefixed (JStr ''Z'')) [] ''#666666'' ''2.0'']"
    by (simp add: render_def edge_color_def lower_simps)
  from structural_issues [OF a b, of "[]" "[]" "[]"] wn we r show ?thesis
    by auto
qed

text \<open>
  A graph that passes the key validation and has a node entry without \<^verbatim>\<open>id\<close>: the render
  does not complete, and the run shows the generic error instead of a diagram.
\<close>

theorem structural_issues_counterexample:
  \<open>extract_graph ''{"nodes": [{"label": "x"}], "edges": []}''
     = Inr (JObj [(''nodes'', JArr [JObj [(''label'', JStr ''x'')]]), (''edges'', JArr [])])
   \<and> render (JObj [(''nodes'', JArr [JObj [(''label'', JStr ''x'')]]), (''edges'', JArr [])])
     = Inl (KeyError ''id'')
   \<and> show_result ''{"nodes": [{"label": "x"}], "edges": []}'' ''text''
     = [St_error (Generation_failed (KeyError ''id''))]\<close>
  by code_simp

section \<open>The decoder inverts the encoder\<close>

lemma hex_val_hex_digit: "k < 16 \<Longrightarrow> hex_val (hex_digit k) = Some k"
proof -
  have "list_all (\<lambda>k. hex_val (hex_digit k) = Some k) [0..<16]"
    by code_simp
  then show "k < 16 \<Longrightarrow> hex_val (hex_digit k) = Some k"
    by (simp add: list_all_iff)
qed

lemma hex_val_zero: "hex_val CHR ''0'' = Some 0"
  by (simp add: hex_val_def)

lemma unicode_escape_control:
  assumes "(of_char c :: nat) < 0x20"
  shows "unicode_escape (CHR ''0'' # CHR ''0'' # hex_digit (of_char c div 16)
           # hex_digit (of_char c mod 16) # rest) = Some ([c], 4)"
proof -
  let ?n = "of_char c :: nat"
  have d: "?n div 16 < 16" using assms by simp
  have m: "?n mod 16 < 16" by simp
  have "decode_uXXXX (CHR ''0'' # CHR ''0'' # hex_digit (?n div 16) # hex_digit (?n mod 16) # rest)
      = Some ?n"
    by (simp add: decode_uXXXX_def hex_val_zero hex_val_hex_digit [OF d] hex_val_hex_digit [OF m])
  moreover have "utf8 ?n = [c]" using assms by (simp add: utf8_def)
  ultimately show ?thesis using assms by (simp add: unicode_escape_def)
qed

lemma scanstring_escape:
  "scanstring (concat (map escape_char t) @ CHR 0x22 # rest) = Some (t, rest)"
proof (induction t)
  case Nil
  show ?case by simp
next
  case (Cons c t)
  let ?tail = "concat (map escape_char t) @ CHR 0x22 # rest"
  have ih: "scanstring ?tail = Some (t, rest)" by (rule Cons.IH)
  consider (quote) "c = CHR 0x22" | (bs) "c = CHR 0x5C" | (nl) "c = CHR 0x0A"
    | (cr) "c = CHR 0x0D" | (tab) "c = CHR 0x09" | (b) "c = CHR 0x08" | (ff) "c = CHR 0x0C"
    | (ctl) "c \<notin> {CHR 0x22, CHR 0x5C, CHR 0x0A, CHR 0x0D, CHR 0x09, CHR 0x08, CHR 0x0C}"
        "(of_char c :: nat) < 0x20"
    | (plain) "c \<notin> {CHR 0x22, CHR 0x5C, CHR 0x0A, CHR 0x0D, CHR 0x09, CHR 0x08, CHR 0x0C}"
        "\<not> (of_char c :: nat) < 0x20"
    by blast
  then show ?case
  proof cases
    case quote
    have e: "escape_char (CHR 0x22) = [CHR 0x5C, CHR 0x22]" by (simp add: escape_char_def)
    show ?thesis using ih quote by (simp add: e unescape_def)
  next
    case bs
    have e: "escape_char (CHR 0x5C) = [CHR 0x5C, CHR 0x5C]" by (simp add: escape_char_def)
    show ?thesis using ih bs by (simp add: e unescape_def)
  next
    case nl
    have e: "escape_char (CHR 0x0A) = [CHR 0x5C, CHR ''n'']" by (simp add: escape_char_def)
    show ?thesis using ih nl by (simp add: e unescape_def)
  next
    case cr
    have e: "escape_char (CHR 0x0D) = [CHR 0x5C, CHR ''r'']" by (simp add: escape_char_def)
    show ?thesis using ih cr by (simp add: e unescape_def)
  next
    case tab
    have e: "escape_char (CHR 0x09) = [CHR 0x5C, CHR ''t'']" by (simp add: escape_char_def)
    show ?thesis using ih tab by (simp add: e unescape_def)
  next
    case b
    have e: "escape_char (CHR 0x08) = [CHR 0x5C, CHR ''b'']" by (simp add: escape_char_def)
    show ?thesis using ih b by (simp add: e unescape_def)
  next
    case ff
    have e: "escape_char (CHR 0x0C) = [CHR 0x5C, CHR ''f'']" by (simp add: escape_char_def)
    show ?thesis using ih ff by (simp add: e unescape_def)
  next
    case ctl
    then have e: "escape_char c = [CHR 0x5C, CHR ''u'', CHR ''0'', CHR ''0'',
            hex_digit (of_char c div 16), hex_digit (of_char c mod 16)]"
      by (simp add: escape_char_def)
    show ?thesis
      using ih unicode_escape_control [OF ctl(2), of ?tail] by (simp add: e)
  next
    case plain
    then have e: "escape_char c = [c]" by (simp add: escape_char_def)
    show ?thesis using ih plain by (simp add: e)
  qed
qed

lemma scanstring_encode:
  "scanstring (tl (encode_string t) @ rest) = Some (t, rest)"
  using scanstring_escape [of t rest] by (simp add: encode_string_def)

lemma encode_string_Cons: "encode_string t = CHR 0x22 # tl (encode_string t)"
  by (simp add: encode_string_def)

lemma dict_set_new: "k \<notin> fst ` set d \<Longrightarrow> dict_set d k v = d @ [(k, v)]"
  by (induction d) auto

lemma py_dict_foldl:
  "distinct (map fst (acc @ kvs)) \<Longrightarrow>
     foldl (\<lambda>d (k, v). dict_set d k v) acc kvs = acc @ kvs"
proof (induction kvs arbitrary: acc)
  case Nil
  show ?case by simp
next
  case (Cons kv kvs)
  obtain k v where kv: "kv = (k, v)" by (cases kv)
  from Cons.prems have "k \<notin> fst ` set acc" by (auto simp: kv)
  then have s: "dict_set acc k v = acc @ [(k, v)]" by (rule dict_set_new)
  from Cons.prems have "distinct (map fst ((acc @ [(k, v)]) @ kvs))" by (simp add: kv)
  then have "foldl (\<lambda>d (k, v). dict_set d k v) (acc @ [(k, v)]) kvs = (acc @ [(k, v)]) @ kvs"
    by (rule Cons.IH)
  then show ?case by (simp add: kv s)
qed

lemma py_dict_distinct: "distinct (map fst kvs) \<Longrightarrow> py_dict kvs = kvs"
  using py_dict_foldl [of "[]" kvs] by (simp add: py_dict_def)

lemma value_start_simps:
  "value_start c \<Longrightarrow> \<not> is_ws c"
  "value_start c \<Longrightarrow> c \<noteq> CHR '']''"
  "value_start c \<Longrightarrow> c \<noteq> CHR ''}''"
  by (auto simp: value_start_def is_ws_def)

lemma encode_start:
  "plain v \<Longrightarrow> \<exists>c cs. encode isep ksep v = c # cs \<and> value_start c"
  by (cases v) (auto simp: value_start_def encode_string_def)

lemma skip_ws_start: "value_start c \<Longrightarrow> skip_ws (c # cs) = c # cs"
  by (simp add: skip_ws_def value_start_simps)

lemma skip_ws_append: "list_all is_ws a \<Longrightarrow> skip_ws (a @ cs) = skip_ws cs"
  by (induction a) (simp_all add: skip_ws_def)

lemma skip_ws_delims:
  "skip_ws (CHR '','' # cs) = CHR '','' # cs"
  "skip_ws (CHR '':'' # cs) = CHR '':'' # cs"
  "skip_ws (CHR '']'' # cs) = CHR '']'' # cs"
  "skip_ws (CHR ''}'' # cs) = CHR ''}'' # cs"
  by (simp_all add: skip_ws_def is_ws_def)

lemma parse_value_string:
  "parse_value (encode_string t @ rest) = Some (JStr t, rest)"
proof -
  have eq: "encode_string t @ rest = CHR 0x22 # (tl (encode_string t) @ rest)"
    using encode_string_Cons [of t] by (metis append_Cons)
  show ?thesis
    by (subst eq) (simp add: parse_value.simps scanstring_encode)
qed

lemma parse_value_literals:
  "parse_value (''null'' @ rest) = Some (JNull, rest)"
  "parse_value (''true'' @ rest) = Some (JBool True, rest)"
  "parse_value (''false'' @ rest) = Some (JBool False, rest)"
  by (simp_all add: parse_value.simps scan_literal_def)

lemma encode_elements_start:
  "vs \<noteq> [] \<Longrightarrow> plain_elements vs \<Longrightarrow>
     \<exists>c cs. encode_elements isep ksep vs = c # cs \<and> value_start c"
proof (cases vs)
  case Nil
  then show "vs \<noteq> [] \<Longrightarrow> ?thesis" by simp
next
  case (Cons v ws)
  assume "plain_elements vs"
  with Cons have "plain v" by simp
  then obtain c cs where "encode isep ksep v = c # cs" "value_start c"
    using encode_start by blast
  then show ?thesis using Cons by (cases ws) auto
qed

lemma encode_members_start:
  "kvs \<noteq> [] \<Longrightarrow> encode_members isep ksep kvs = CHR 0x22 # tl (encode_members isep ksep kvs)"
proof (cases kvs)
  case Nil
  then show "kvs \<noteq> [] \<Longrightarrow> ?thesis" by simp
next
  case (Cons kv ws)
  obtain k v where "kv = (k, v)" by (cases kv)
  then show ?thesis using Cons by (cases ws) (auto simp: encode_string_def)
qed

lemma encode_nonempty: "plain v \<Longrightarrow> encode isep ksep v \<noteq> []"
  using encode_start [of v isep ksep] by fastforce

lemma skip_ws_value:
  assumes "list_all is_ws a" and "plain v"
  shows "skip_ws (a @ encode isep ksep v @ rest) = encode isep ksep v @ rest"
proof -
  from encode_start [OF assms(2), of isep ksep] obtain c cs where
    "encode isep ksep v = c # cs" and "value_start c" by blast
  then show ?thesis
    using skip_ws_append [OF assms(1)] skip_ws_start by simp
qed

lemma parse_elements_step:
  assumes "parse_value s = Some (v, r)" and "length r < length s"
  shows "parse_elements s =
           (case skip_ws r of
              [] \<Rightarrow> None
            | d # ds \<Rightarrow>
                if d = CHR '']'' then Some ([v], ds)
                else if d = CHR '','' then
                  (case parse_elements (skip_ws ds) of
                     None \<Rightarrow> None
                   | Some (vs, r') \<Rightarrow> Some (v # vs, r'))
                else None)"
  using assms by (subst parse_elements.simps) simp

lemma parse_members_step:
  assumes "scanstring s = Some (key, CHR '':'' # t)"
    and "parse_value (skip_ws t) = Some (v, r1)" and "length r1 < length s"
  shows "parse_members s =
           (case skip_ws r1 of
              [] \<Rightarrow> None
            | d # ds \<Rightarrow>
                if d = CHR ''}'' then Some ([(key, v)], ds)
                else if d = CHR '','' then
                  (case skip_ws ds of
                     [] \<Rightarrow> None
                   | e # es \<Rightarrow>
                       if e = CHR 0x22 then
                         (case parse_members es of
                            None \<Rightarrow> None
                          | Some (pairs, r') \<Rightarrow> Some ((key, v) # pairs, r'))
                       else None)
                else None)"
  using assms by (subst parse_members.simps) (simp add: skip_ws_delims)

lemma roundtrip:
  assumes a: "list_all is_ws a" and b: "list_all is_ws b"
  shows "isep = CHR '','' # a \<Longrightarrow> ksep = CHR '':'' # b \<Longrightarrow> plain v \<Longrightarrow>
           parse_value (encode isep ksep v @ rest) = Some (v, rest)"
    and "isep = CHR '','' # a \<Longrightarrow> ksep = CHR '':'' # b \<Longrightarrow> vs \<noteq> [] \<Longrightarrow> plain_elements vs \<Longrightarrow>
           parse_elements (encode_elements isep ksep vs @ CHR '']'' # rest1) = Some (vs, rest1)"
    and "isep = CHR '','' # a \<Longrightarrow> ksep = CHR '':'' # b \<Longrightarrow> kvs \<noteq> [] \<Longrightarrow> plain_members kvs \<Longrightarrow>
           parse_members (tl (encode_members isep ksep kvs) @ CHR ''}'' # rest2) = Some (kvs, rest2)"
proof (induction isep ksep v and isep ksep vs and isep ksep kvs
    arbitrary: rest and rest1 and rest2
    rule: encode_encode_elements_encode_members.induct)
  case (1 isep ksep)
  show ?case using parse_value_literals(1) by simp
next
  case (2 isep ksep b)
  show ?case using parse_value_literals(2,3) by (cases b) simp_all
next
  case (3 isep ksep i)
  then show ?case by simp
next
  case (4 isep ksep lexeme)
  then show ?case by simp
next
  case (5 isep ksep t)
  show ?case by (simp add: parse_value_string)
next
  case (6 isep ksep vs)
  note seps = "6.prems"(1,2)
  show ?case
  proof (cases "vs = []")
    case True
    then show ?thesis
      by (subst parse_value.simps) (simp add: skip_ws_delims)
  next
    case False
    from "6.prems" have pl: "plain_elements vs" by simp
    from encode_elements_start [OF False pl, of isep ksep] obtain c cs where
      d: "encode_elements isep ksep vs = c # cs" and c: "value_start c" by blast
    have "parse_elements (encode_elements isep ksep vs @ CHR '']'' # rest) = Some (vs, rest)"
      using "6.IH" [OF seps False pl] .
    then have pe: "parse_elements (c # (cs @ CHR '']'' # rest)) = Some (vs, rest)"
      by (simp add: d)
    show ?thesis
      by (subst parse_value.simps)
         (simp add: d skip_ws_start [OF c] value_start_simps(2) [OF c] pe)
  qed
next
  case (7 isep ksep kvs)
  note seps = "7.prems"(1,2)
  show ?case
  proof (cases "kvs = []")
    case True
    then show ?thesis
      by (subst parse_value.simps) (simp add: skip_ws_delims)
  next
    case False
    from "7.prems" have pl: "plain_members kvs" and dist: "distinct (map fst kvs)" by simp_all
    from encode_members_start [OF False, of isep ksep] have
      d: "encode_members isep ksep kvs = CHR 0x22 # tl (encode_members isep ksep kvs)" .
    have pm: "parse_members (tl (encode_members isep ksep kvs) @ CHR ''}'' # rest) = Some (kvs, rest)"
      using "7.IH" [OF seps False pl] .
    have q: "value_start (CHR 0x22)" by (simp add: value_start_def)
    have eq: "encode isep ksep (JObj kvs) @ rest
        = CHR ''{'' # CHR 0x22 # (tl (encode_members isep ksep kvs) @ CHR ''}'' # rest)"
      using d by (metis append_Cons append_Nil append_assoc encode.simps(7))
    show ?thesis
      by (subst eq, subst parse_value.simps)
         (simp add: skip_ws_start [OF q] pm py_dict_distinct [OF dist])
  qed
next
  case (8 isep ksep)
  then show ?case by simp
next
  case (9 isep ksep v)
  note seps = "9.prems"(1,2)
  from "9.prems" have pl: "plain v" by simp
  have pv: "parse_value (encode isep ksep v @ CHR '']'' # rest1) = Some (v, CHR '']'' # rest1)"
    using "9.IH" [OF seps pl] .
  have len: "length (CHR '']'' # rest1) < length (encode isep ksep v @ CHR '']'' # rest1)"
    using encode_nonempty [OF pl, of isep ksep] by simp
  show ?case
    using parse_elements_step [OF pv len] by (simp add: skip_ws_delims)
next
  case (10 isep ksep v w vs)
  note seps = "10.prems"(1,2)
  from "10.prems" have pl: "plain v" and pls: "plain_elements (w # vs)" by simp_all
  let ?tail = "encode_elements isep ksep (w # vs) @ CHR '']'' # rest1"
  have pv: "parse_value (encode isep ksep v @ CHR '','' # a @ ?tail)
      = Some (v, CHR '','' # a @ ?tail)"
    using "10.IH"(1) [OF seps pl] .
  have len: "length (CHR '','' # a @ ?tail)
      < length (encode isep ksep v @ CHR '','' # a @ ?tail)"
    using encode_nonempty [OF pl, of isep ksep] by simp
  from encode_elements_start [OF _ pls, of isep ksep] obtain c cs where
    d: "encode_elements isep ksep (w # vs) = c # cs" and c: "value_start c" by blast
  have sk: "skip_ws (a @ ?tail) = ?tail"
    using skip_ws_append [OF a] skip_ws_start [OF c] by (simp add: d)
  have pe: "parse_elements ?tail = Some (w # vs, rest1)"
    using "10.IH"(2) [OF seps _ pls] by simp
  have "parse_elements (encode isep ksep v @ CHR '','' # a @ ?tail) = Some (v # w # vs, rest1)"
    using parse_elements_step [OF pv len] by (simp add: skip_ws_delims sk pe)
  then show ?case by (simp add: seps)
next
  case (11 isep ksep)
  then show ?case by simp
next
  case (12 isep ksep k v)
  note seps = "12.prems"(1,2)
  from "12.prems" have pl: "plain v" by simp
  let ?val = "encode isep ksep v @ CHR ''}'' # rest2"
  let ?s = "tl (encode_string k) @ CHR '':'' # b @ ?val"
  have sc: "scanstring ?s = Some (k, CHR '':'' # b @ ?val)"
    by (rule scanstring_encode)
  have sk: "skip_ws (b @ ?val) = ?val"
    using skip_ws_value [OF b pl] .
  have pv: "parse_value (skip_ws (b @ ?val)) = Some (v, CHR ''}'' # rest2)"
    using "12.IH" [OF seps pl] by (simp add: sk)
  have len: "length (CHR ''}'' # rest2) < length ?s"
    by simp
  have "parse_members ?s = Some ([(k, v)], rest2)"
    using parse_members_step [OF sc pv len] by (simp add: skip_ws_delims)
  moreover have "tl (encode_members isep ksep [(k, v)]) @ CHR ''}'' # rest2 = ?s"
    by (simp add: encode_string_def seps)
  ultimately show ?case by simp
next
  case (13 isep ksep k v kv kvs)
  note seps = "13.prems"(1,2)
  from "13.prems" have pl: "plain v" and pls: "plain_members (kv # kvs)" by simp_all
  let ?more = "encode_members isep ksep (kv # kvs) @ CHR ''}'' # rest2"
  let ?after = "CHR '','' # a @ ?more"
  let ?val = "encode isep ksep v @ ?after"
  let ?s = "tl (encode_string k) @ CHR '':'' # b @ ?val"
  have sc: "scanstring ?s = Some (k, CHR '':'' # b @ ?val)"
    by (rule scanstring_encode)
  have sk: "skip_ws (b @ ?val) = ?val"
    using skip_ws_value [OF b pl] .
  have pv: "parse_value (skip_ws (b @ ?val)) = Some (v, ?after)"
    using "13.IH"(1) [OF seps pl] by (simp add: sk)
  have len: "length ?after < length ?s"
    by simp
  have m: "encode_members isep ksep (kv # kvs) = CHR 0x22 # tl (encode_members isep ksep (kv # kvs))"
    by (rule encode_members_start) simp
  have q: "value_start (CHR 0x22)" by (simp add: value_start_def)
  have "skip_ws ?more = CHR 0x22 # (tl (encode_members isep ksep (kv # kvs)) @ CHR ''}'' # rest2)"
    using m skip_ws_start [OF q] by (metis append_Cons)
  then have sk2: "skip_ws (a @ ?more)
      = CHR 0x22 # (tl (encode_members isep ksep (kv # kvs)) @ CHR ''}'' # rest2)"
    using skip_ws_append [OF a] by simp
  have pm: "parse_members (tl (encode_members isep ksep (kv # kvs)) @ CHR ''}'' # rest2)
      = Some (kv # kvs, rest2)"
    using "13.IH"(2) [OF seps _ pls] by simp
  have "parse_members ?s = Some ((k, v) # kv # kvs, rest2)"
    using parse_members_step [OF sc pv len]
    by (simp add: skip_ws_delims sk2 pm)
  moreover have "tl (encode_members isep ksep ((k, v) # kv # kvs)) @ CHR ''}'' # rest2 = ?s"
    by (simp add: encode_string_def seps)
  ultimately show ?case by simp
qed

lemma json_loads_encode:
  assumes "list_all is_ws a" and "list_all is_ws b" and "plain v"
  shows "json_loads (encode (CHR '','' # a) (CHR '':'' # b) v) = Some v"
proof -
  let ?text = "encode (CHR '','' # a) (CHR '':'' # b) v"
  have "skip_ws ([] @ ?text @ []) = ?text @ []"
    by (rule skip_ws_value) (simp_all add: assms(3))
  then have sk: "skip_ws ?text = ?text" by simp
  have "parse_value (?text @ []) = Some (v, [])"
    using roundtrip(1) [OF assms(1,2) refl refl assms(3)] .
  moreover have "skip_ws [] = []" by (simp add: skip_ws_def)
  ultimately show ?thesis
    by (simp add: json_loads_def sk)
qed

lemma json_string_object:
  "json_string (encode isep ksep (JObj kvs)) = encode isep ksep (JObj kvs)"
  using json_string_between [of "[]" "[]" "encode_members isep ksep kvs"] by simp

lemma plain_node_json: "plain (node_json n)"
  by (cases n) simp

lemma plain_edge_json: "plain (edge_json e)"
  by (induction e rule: edge_json.induct) simp_all

lemma plain_graph_json: "plain (graph_json g)"
proof (cases g)
  case (FlowGraph ns es)
  have "plain_elements (map node_json ns)"
    by (induction ns) (simp_all add: plain_node_json)
  moreover have "plain_elements (map edge_json es)"
    by (induction es) (simp_all add: plain_edge_json)
  ultimately show ?thesis by (simp add: FlowGraph)
qed

lemma keys_present_graph_json: "keys_present (graph_json g) = Inr True"
  by (cases g) (simp add: keys_present_def)

lemma extract_graph_encode:
  assumes "list_all is_ws a" and "list_all is_ws b"
  shows "extract_graph (encode (CHR '','' # a) (CHR '':'' # b) (graph_json g)) = Inr (graph_json g)"
proof -
  obtain kvs where o: "graph_json g = JObj kvs" by (cases g) simp
  have "json_string (encode (CHR '','' # a) (CHR '':'' # b) (graph_json g))
      = encode (CHR '','' # a) (CHR '':'' # b) (graph_json g)"
    unfolding o by (rule json_string_object)
  moreover have "json_loads (encode (CHR '','' # a) (CHR '':'' # b) (graph_json g))
      = Some (graph_json g)"
    using assms plain_graph_json by (rule json_loads_encode)
  ultimately show ?thesis
    by (simp add: extract_graph_def keys_present_graph_json)
qed

lemma node_json_inject: "node_json n = node_json n' \<Longrightarrow> n = n'"
  by (cases n; cases n') simp

lemma edge_json_inject: "edge_json e = edge_json e' \<Longrightarrow> e = e'"
  by (induction e rule: edge_json.induct; induction e' rule: edge_json.induct) simp_all

lemma graph_json_inject: "graph_json g = graph_json g' \<Longrightarrow> g = g'"
proof (cases g; cases g')
  fix ns es ns' es'
  assume g: "g = FlowGraph ns es" and g': "g' = FlowGraph ns' es'"
    and eq: "graph_json g = graph_json g'"
  have "inj node_json" and "inj edge_json"
    by (auto intro: injI node_json_inject edge_json_inject)
  with eq g g' show "g = g'"
    by (simp add: inj_map_eq_map)
qed

text \<open>
  C7. Extraction is the identity on clean input: for every flow graph, extraction on the
  JSON serialization of the graph succeeds and returns the JSON object of that same
  graph. This holds for the text \<^verbatim>\<open>json.dumps\<close> produces and for the compact text of
  \<^verbatim>\<open>JSON.stringify\<close>.
\<close>

theorem extract_graph_roundtrip:
  "extract_graph (json_dumps (graph_json g)) = Inr (graph_json g)
   \<and> extract_graph (json_stringify (graph_json g)) = Inr (graph_json g)"
proof
  have "extract_graph (encode (CHR '','' # '' '') (CHR '':'' # '' '') (graph_json g))
      = Inr (graph_json g)"
    by (rule extract_graph_encode) (simp_all add: is_ws_def)
  then show "extract_graph (json_dumps (graph_json g)) = Inr (graph_json g)"
    by (simp add: json_dumps_def)
  have "extract_graph (encode (CHR '','' # []) (CHR '':'' # []) (graph_json g))
      = Inr (graph_json g)"
    by (rule extract_graph_encode) simp_all
  then show "extract_graph (json_stringify (graph_json g)) = Inr (graph_json g)"
    by (simp add: json_stringify_def)
qed

theorem extract_graph_roundtrip_witness:
  \<open>extract_graph
     ''{"nodes": [{"id": "A", "label": "Start: f(n)"}, {"id": "B", "label": "Return 1"}], "edges": [{"from": "A", "to": "B"}]}''
   = Inr (JObj [(''nodes'', JArr [JObj [(''id'', JStr ''A''), (''label'', JStr ''Start: f(n)'')],
                                   JObj [(''id'', JStr ''B''), (''label'', JStr ''Return 1'')]]),
                (''edges'', JArr [JObj [(''from'', JStr ''A''), (''to'', JStr ''B'')]])])
   \<and> extract_graph
     ''{"nodes":[{"id":"A","label":"Start: f(n)"},{"id":"B","label":"Return 1"}],"edges":[{"from":"A","to":"B"}]}''
   = Inr (JObj [(''nodes'', JArr [JObj [(''id'', JStr ''A''), (''label'', JStr ''Start: f(n)'')],
                                   JObj [(''id'', JStr ''B''), (''label'', JStr ''Return 1'')]]),
                (''edges'', JArr [JObj [(''from'', JStr ''A''), (''to'', JStr ''B'')]])])\<close>
  using extract_graph_roundtrip
    [of "FlowGraph [FlowNode ''A'' ''Start: f(n)'', FlowNode ''B'' ''Return 1'']
                   [FlowEdge ''A'' ''B'' None]"]
  by (simp add: json_dumps_def json_stringify_def encode_string_def escape_char_def)

subsection \<open>The round trip under the limits of the interpreter\<close>

text \<open>
  The serialization of a flow graph has no number and nests three containers. The decoder
  as it runs returns the graph whenever three levels of nesting are left at the call, and
  so does extraction.
\<close>

lemma dec_value_string:
  "dec_value lim n (encode_string t @ rest) = Inr (JStr t, rest)"
proof -
  have eq: "encode_string t @ rest = CHR 0x22 # (tl (encode_string t) @ rest)"
    using encode_string_Cons [of t] by (metis append_Cons)
  show ?thesis
    by (subst eq) (simp add: dec_value.simps scanstring_encode)
qed

lemma dec_value_literals:
  "dec_value lim n (''null'' @ rest) = Inr (JNull, rest)"
  "dec_value lim n (''true'' @ rest) = Inr (JBool True, rest)"
  "dec_value lim n (''false'' @ rest) = Inr (JBool False, rest)"
  by (simp_all add: dec_value.simps dec_literal_def scan_literal_def)

lemma dec_elements_step:
  assumes "dec_value lim n s = Inr (v, r)" and "length r < length s"
  shows "dec_elements lim n s =
           (case skip_ws r of
              [] \<Rightarrow> Inl JSONDecodeError
            | d # ds \<Rightarrow>
                if d = CHR '']'' then Inr ([v], ds)
                else if d = CHR '','' then
                  (case dec_elements lim n (skip_ws ds) of
                     Inl e \<Rightarrow> Inl e
                   | Inr (vs, r') \<Rightarrow> Inr (v # vs, r'))
                else Inl JSONDecodeError)"
  using assms by (subst dec_elements.simps) simp

lemma dec_members_step:
  assumes "scanstring s = Some (key, CHR '':'' # t)"
    and "dec_value lim n (skip_ws t) = Inr (v, r1)" and "length r1 < length s"
  shows "dec_members lim n s =
           (case skip_ws r1 of
              [] \<Rightarrow> Inl JSONDecodeError
            | d # ds \<Rightarrow>
                if d = CHR ''}'' then Inr ([(key, v)], ds)
                else if d = CHR '','' then
                  (case skip_ws ds of
                     [] \<Rightarrow> Inl JSONDecodeError
                   | e # es \<Rightarrow>
                       if e = CHR 0x22 then
                         (case dec_members lim n es of
                            Inl x \<Rightarrow> Inl x
                          | Inr (pairs, r') \<Rightarrow> Inr ((key, v) # pairs, r'))
                       else Inl JSONDecodeError)
                else Inl JSONDecodeError)"
  using assms by (subst dec_members.simps) (simp add: skip_ws_delims)

lemma dec_roundtrip:
  assumes a: "list_all is_ws a" and b: "list_all is_ws b"
  shows "isep = CHR '','' # a \<Longrightarrow> ksep = CHR '':'' # b \<Longrightarrow> plain v \<Longrightarrow> depth v \<le> n \<Longrightarrow>
           dec_value lim n (encode isep ksep v @ rest) = Inr (v, rest)"
    and "isep = CHR '','' # a \<Longrightarrow> ksep = CHR '':'' # b \<Longrightarrow> vs \<noteq> [] \<Longrightarrow> plain_elements vs \<Longrightarrow>
           depth_elements vs \<le> n1 \<Longrightarrow>
           dec_elements lim n1 (encode_elements isep ksep vs @ CHR '']'' # rest1) = Inr (vs, rest1)"
    and "isep = CHR '','' # a \<Longrightarrow> ksep = CHR '':'' # b \<Longrightarrow> kvs \<noteq> [] \<Longrightarrow> plain_members kvs \<Longrightarrow>
           depth_members kvs \<le> n2 \<Longrightarrow>
           dec_members lim n2 (tl (encode_members isep ksep kvs) @ CHR ''}'' # rest2) = Inr (kvs, rest2)"
proof (induction isep ksep v and isep ksep vs and isep ksep kvs
    arbitrary: rest n and rest1 n1 and rest2 n2
    rule: encode_encode_elements_encode_members.induct)
  case (1 isep ksep)
  show ?case using dec_value_literals(1) by simp
next
  case (2 isep ksep b)
  show ?case using dec_value_literals(2,3) by (cases b) simp_all
next
  case (3 isep ksep i)
  then show ?case by simp
next
  case (4 isep ksep lexeme)
  then show ?case by simp
next
  case (5 isep ksep t)
  show ?case by (simp add: dec_value_string)
next
  case (6 isep ksep vs)
  note seps = "6.prems"(1,2)
  from "6.prems"(4) obtain m where n: "n = Suc m" and dn: "depth_elements vs \<le> m"
    by (cases n) simp_all
  show ?case
  proof (cases "vs = []")
    case True
    then show ?thesis
      unfolding n by (subst dec_value.simps) (simp add: skip_ws_delims)
  next
    case False
    from "6.prems" have pl: "plain_elements vs" by simp
    from encode_elements_start [OF False pl, of isep ksep] obtain c cs where
      d: "encode_elements isep ksep vs = c # cs" and c: "value_start c" by blast
    have "dec_elements lim m (encode_elements isep ksep vs @ CHR '']'' # rest) = Inr (vs, rest)"
      using "6.IH" [OF seps False pl dn] .
    then have pe: "dec_elements lim m (c # (cs @ CHR '']'' # rest)) = Inr (vs, rest)"
      by (simp add: d)
    show ?thesis
      unfolding n
      by (subst dec_value.simps)
         (simp add: d skip_ws_start [OF c] value_start_simps(2) [OF c] pe)
  qed
next
  case (7 isep ksep kvs)
  note seps = "7.prems"(1,2)
  from "7.prems"(4) obtain m where n: "n = Suc m" and dn: "depth_members kvs \<le> m"
    by (cases n) simp_all
  show ?case
  proof (cases "kvs = []")
    case True
    then show ?thesis
      unfolding n by (subst dec_value.simps) (simp add: skip_ws_delims)
  next
    case False
    from "7.prems" have pl: "plain_members kvs" and dist: "distinct (map fst kvs)" by simp_all
    from encode_members_start [OF False, of isep ksep] have
      d: "encode_members isep ksep kvs = CHR 0x22 # tl (encode_members isep ksep kvs)" .
    have pm: "dec_members lim m (tl (encode_members isep ksep kvs) @ CHR ''}'' # rest)
        = Inr (kvs, rest)"
      using "7.IH" [OF seps False pl dn] .
    have q: "value_start (CHR 0x22)" by (simp add: value_start_def)
    have eq: "encode isep ksep (JObj kvs) @ rest
        = CHR ''{'' # CHR 0x22 # (tl (encode_members isep ksep kvs) @ CHR ''}'' # rest)"
      using d by (metis append_Cons append_Nil append_assoc encode.simps(7))
    show ?thesis
      unfolding n
      by (subst eq, subst dec_value.simps)
         (simp add: skip_ws_start [OF q] pm py_dict_distinct [OF dist])
  qed
next
  case (8 isep ksep)
  then show ?case by simp
next
  case (9 isep ksep v)
  note seps = "9.prems"(1,2)
  from "9.prems" have pl: "plain v" and dn: "depth v \<le> n1" by simp_all
  have pv: "dec_value lim n1 (encode isep ksep v @ CHR '']'' # rest1) = Inr (v, CHR '']'' # rest1)"
    using "9.IH" [OF seps pl dn] .
  have len: "length (CHR '']'' # rest1) < length (encode isep ksep v @ CHR '']'' # rest1)"
    using encode_nonempty [OF pl, of isep ksep] by simp
  show ?case
    using dec_elements_step [OF pv len] by (simp add: skip_ws_delims)
next
  case (10 isep ksep v w vs)
  note seps = "10.prems"(1,2)
  from "10.prems" have pl: "plain v" and pls: "plain_elements (w # vs)"
    and dn: "depth v \<le> n1" and dns: "depth_elements (w # vs) \<le> n1" by simp_all
  let ?tail = "encode_elements isep ksep (w # vs) @ CHR '']'' # rest1"
  have pv: "dec_value lim n1 (encode isep ksep v @ CHR '','' # a @ ?tail)
      = Inr (v, CHR '','' # a @ ?tail)"
    using "10.IH"(1) [OF seps pl dn] .
  have len: "length (CHR '','' # a @ ?tail)
      < length (encode isep ksep v @ CHR '','' # a @ ?tail)"
    using encode_nonempty [OF pl, of isep ksep] by simp
  from encode_elements_start [OF _ pls, of isep ksep] obtain c cs where
    d: "encode_elements isep ksep (w # vs) = c # cs" and c: "value_start c" by blast
  have sk: "skip_ws (a @ ?tail) = ?tail"
    using skip_ws_append [OF a] skip_ws_start [OF c] by (simp add: d)
  have pe: "dec_elements lim n1 ?tail = Inr (w # vs, rest1)"
    using "10.IH"(2) [OF seps _ pls dns] by simp
  have "dec_elements lim n1 (encode isep ksep v @ CHR '','' # a @ ?tail) = Inr (v # w # vs, rest1)"
    using dec_elements_step [OF pv len] by (simp add: skip_ws_delims sk pe)
  then show ?case by (simp add: seps)
next
  case (11 isep ksep)
  then show ?case by simp
next
  case (12 isep ksep k v)
  note seps = "12.prems"(1,2)
  from "12.prems" have pl: "plain v" and dn: "depth v \<le> n2" by simp_all
  let ?val = "encode isep ksep v @ CHR ''}'' # rest2"
  let ?s = "tl (encode_string k) @ CHR '':'' # b @ ?val"
  have sc: "scanstring ?s = Some (k, CHR '':'' # b @ ?val)"
    by (rule scanstring_encode)
  have sk: "skip_ws (b @ ?val) = ?val"
    using skip_ws_value [OF b pl] .
  have pv: "dec_value lim n2 (skip_ws (b @ ?val)) = Inr (v, CHR ''}'' # rest2)"
    using "12.IH" [OF seps pl dn] by (simp add: sk)
  have len: "length (CHR ''}'' # rest2) < length ?s"
    by simp
  have "dec_members lim n2 ?s = Inr ([(k, v)], rest2)"
    using dec_members_step [OF sc pv len] by (simp add: skip_ws_delims)
  moreover have "tl (encode_members isep ksep [(k, v)]) @ CHR ''}'' # rest2 = ?s"
    by (simp add: encode_string_def seps)
  ultimately show ?case by simp
next
  case (13 isep ksep k v kv kvs)
  note seps = "13.prems"(1,2)
  from "13.prems" have pl: "plain v" and pls: "plain_members (kv # kvs)"
    and dn: "depth v \<le> n2" and dns: "depth_members (kv # kvs) \<le> n2" by simp_all
  let ?more = "encode_members isep ksep (kv # kvs) @ CHR ''}'' # rest2"
  let ?after = "CHR '','' # a @ ?more"
  let ?val = "encode isep ksep v @ ?after"
  let ?s = "tl (encode_string k) @ CHR '':'' # b @ ?val"
  have sc: "scanstring ?s = Some (k, CHR '':'' # b @ ?val)"
    by (rule scanstring_encode)
  have sk: "skip_ws (b @ ?val) = ?val"
    using skip_ws_value [OF b pl] .
  have pv: "dec_value lim n2 (skip_ws (b @ ?val)) = Inr (v, ?after)"
    using "13.IH"(1) [OF seps pl dn] by (simp add: sk)
  have len: "length ?after < length ?s"
    by simp
  have m: "encode_members isep ksep (kv # kvs) = CHR 0x22 # tl (encode_members isep ksep (kv # kvs))"
    by (rule encode_members_start) simp
  have q: "value_start (CHR 0x22)" by (simp add: value_start_def)
  have "skip_ws ?more = CHR 0x22 # (tl (encode_members isep ksep (kv # kvs)) @ CHR ''}'' # rest2)"
    using m skip_ws_start [OF q] by (metis append_Cons)
  then have sk2: "skip_ws (a @ ?more)
      = CHR 0x22 # (tl (encode_members isep ksep (kv # kvs)) @ CHR ''}'' # rest2)"
    using skip_ws_append [OF a] by simp
  have pm: "dec_members lim n2 (tl (encode_members isep ksep (kv # kvs)) @ CHR ''}'' # rest2)
      = Inr (kv # kvs, rest2)"
    using "13.IH"(2) [OF seps _ pls dns] by simp
  have "dec_members lim n2 ?s = Inr ((k, v) # kv # kvs, rest2)"
    using dec_members_step [OF sc pv len]
    by (simp add: skip_ws_delims sk2 pm)
  moreover have "tl (encode_members isep ksep ((k, v) # kv # kvs)) @ CHR ''}'' # rest2 = ?s"
    by (simp add: encode_string_def seps)
  ultimately show ?case by simp
qed

lemma loads_encode:
  assumes "list_all is_ws a" and "list_all is_ws b" and "plain v" and "depth v \<le> max_depth lim"
  shows "loads lim (encode (CHR '','' # a) (CHR '':'' # b) v) = Inr v"
proof -
  let ?text = "encode (CHR '','' # a) (CHR '':'' # b) v"
  have "skip_ws ([] @ ?text @ []) = ?text @ []"
    by (rule skip_ws_value) (simp_all add: assms(3))
  then have sk: "skip_ws ?text = ?text" by simp
  have "dec_value lim (max_depth lim) (?text @ []) = Inr (v, [])"
    using dec_roundtrip(1) [OF assms(1,2) refl refl assms(3,4)] .
  moreover have "skip_ws [] = []" by (simp add: skip_ws_def)
  ultimately show ?thesis
    by (simp add: loads_def sk)
qed

lemma depth_graph_json: "depth (graph_json g) \<le> 3"
proof (cases g)
  case (FlowGraph ns es)
  have n: "depth_elements (map node_json ns) \<le> 1"
  proof (induction ns)
    case Nil
    show ?case by simp
  next
    case (Cons n ns)
    then show ?case by (cases n) simp
  qed
  have e: "depth_elements (map edge_json es) \<le> 1"
  proof (induction es)
    case Nil
    show ?case by simp
  next
    case (Cons e es)
    then show ?case by (induction e rule: edge_json.induct) simp_all
  qed
  from n e show ?thesis by (simp add: FlowGraph)
qed

lemma extraction_encode:
  assumes "list_all is_ws a" and "list_all is_ws b" and "3 \<le> max_depth lim"
  shows "extraction lim (encode (CHR '','' # a) (CHR '':'' # b) (graph_json g)) = Inr (graph_json g)"
proof -
  obtain kvs where o: "graph_json g = JObj kvs" by (cases g) simp
  have "json_string (encode (CHR '','' # a) (CHR '':'' # b) (graph_json g))
      = encode (CHR '','' # a) (CHR '':'' # b) (graph_json g)"
    unfolding o by (rule json_string_object)
  moreover have "depth (graph_json g) \<le> max_depth lim"
    using depth_graph_json [of g] assms(3) by simp
  then have "loads lim (encode (CHR '','' # a) (CHR '':'' # b) (graph_json g))
      = Inr (graph_json g)"
    using assms(1,2) plain_graph_json by (simp add: loads_encode)
  ultimately show ?thesis
    by (simp add: extraction_def keys_present_graph_json)
qed

lemma extraction_roundtrip:
  assumes "3 \<le> max_depth lim"
  shows "extraction lim (json_dumps (graph_json g)) = Inr (graph_json g)"
    and "extraction lim (json_stringify (graph_json g)) = Inr (graph_json g)"
proof -
  have "extraction lim (encode (CHR '','' # '' '') (CHR '':'' # '' '') (graph_json g))
      = Inr (graph_json g)"
    using assms by (intro extraction_encode) (simp_all add: is_ws_def)
  then show "extraction lim (json_dumps (graph_json g)) = Inr (graph_json g)"
    by (simp add: json_dumps_def)
  have "extraction lim (encode (CHR '','' # []) (CHR '':'' # []) (graph_json g))
      = Inr (graph_json g)"
    using assms by (intro extraction_encode) simp_all
  then show "extraction lim (json_stringify (graph_json g)) = Inr (graph_json g)"
    by (simp add: json_stringify_def)
qed

end
